theory Spec2Isabelle
  imports Main "HOL-Library.Word"
begin

section \<open>Shared vocabulary\<close>

text \<open>
  The sentinel errors of package helper. Go compares errors by identity
  (\<open>err == ErrClosed\<close>), so every sentinel is a constructor of its own; any other
  error value is an \<open>OtherError\<close> carrying its message.
\<close>

datatype error = ErrDisconnected | ErrClosed | ErrZeroWorkers | OtherError string

text \<open>
  A Reporter is an interface value holding a pointer. The code compares reporters by
  identity (\<open>r.r != reporter\<close>), so a reporter is modelled by its identity, a natural
  number. Instants are nanoseconds on Go's monotonic clock; a \<open>time.Duration\<close> is a
  signed 64-bit count of nanoseconds, read with \<open>sint\<close>; \<open>uint\<close> is taken at 64 bits.
\<close>

type_synonym reporter = nat
type_synonym instant = int
type_synonym duration = "64 word"
type_synonym guid = nat
type_synonym vector = nat

text \<open>
  The calls a goroutine makes on its collaborators are recorded in a trace, in program
  order. The trace is instrumentation only: no modelled function reads it.
\<close>

datatype event =
    EvAction reporter
  | EvRecover reporter
  | EvGoRecover reporter
  | EvNewReporter string instant instant
  | EvGoClose reporter
  | EvVector reporter guid
  | EvBacklog reporter vector
  | EvReport reporter guid vector bool bool
  | EvVectorClose vector
  | EvClose reporter

text \<open>
  The collaborators that are not part of the modelled code (the protocol transport
  behind \<open>NewReporter\<close> and the clock behind \<open>time.Now\<close>) are parameters: functions on
  an arbitrary world \<open>'w\<close>, which they may change. \<open>EvNewReporter srv t0 t1\<close> records a
  call of \<open>NewReporter srv\<close> that began at instant \<open>t0\<close> and returned at \<open>t1\<close>.
\<close>

record 'w env =
  NewReporter :: "string \<Rightarrow> 'w \<Rightarrow> (error + reporter) \<times> 'w"
  time_Now :: "'w \<Rightarrow> instant"

record ('c, 'w) st =
  obj :: 'c
  world :: 'w
  trace :: "event list"

fun is_action :: "event \<Rightarrow> bool" where
  "is_action (EvAction rep) = True"
| "is_action ev = False"

fun is_recover :: "event \<Rightarrow> bool" where
  "is_recover (EvRecover rep) = True"
| "is_recover ev = False"

fun is_go_recover :: "event \<Rightarrow> bool" where
  "is_go_recover (EvGoRecover rep) = True"
| "is_go_recover ev = False"

fun is_new_reporter :: "event \<Rightarrow> bool" where
  "is_new_reporter (EvNewReporter srv t0 t1) = True"
| "is_new_reporter ev = False"

definition count_ev :: "('a \<Rightarrow> bool) \<Rightarrow> 'a list \<Rightarrow> nat" where
  "count_ev P tr = length (filter P tr)"

section \<open>The durable reporter (helper/durablereporter.go)\<close>

text \<open>
  The fields of \<open>durableReporter\<close>, prefixed with \<open>dr_\<close>; the mutex is not a field of the
  model (see \<open>recover\<close>).
\<close>

record durableReporter =
  dr_server :: string
  dr_interval :: duration
  dr_attempts :: "64 word"
  dr_r :: reporter
  dr_lastRecovery :: instant

text \<open>
  \<open>reporterAction\<close>: the closure a capability method (Vector, Backlog, Report) hands to
  \<open>attempt\<close>. It calls the given reporter and returns that call's error (\<open>None\<close> is
  \<open>nil\<close>); the values it stores in the caller's variables live in the world.
\<close>

type_synonym 'w reporterAction = "reporter \<Rightarrow> 'w \<Rightarrow> error option \<times> 'w"

text \<open>
  \<open>Time.Sub\<close> saturates at the ends of the \<open>Duration\<close> range.
\<close>

definition time_Sub :: "instant \<Rightarrow> instant \<Rightarrow> int" where
  "time_Sub t u = max (- (2 ^ 63)) (min (2 ^ 63 - 1) (t - u))"

text \<open>
  \<open>NewDurableReporter\<close> (lines 39-52). The trace starts with the construction of the
  first underlying reporter.
\<close>

definition NewDurableReporter ::
  "('w, 'x) env_scheme \<Rightarrow> string \<Rightarrow> duration \<Rightarrow> 64 word \<Rightarrow> 'w
     \<Rightarrow> error + (durableReporter, 'w) st" where
  "NewDurableReporter E srv ival retries w =
    (case NewReporter E srv w of
       (Inl e, w') \<Rightarrow> Inl e
     | (Inr rep, w') \<Rightarrow>
         Inr \<lparr>obj = \<lparr>dr_server = srv, dr_interval = ival, dr_attempts = retries + 1,
                     dr_r = rep, dr_lastRecovery = time_Now E w'\<rparr>,
              world = w',
              trace = [EvNewReporter srv (time_Now E w) (time_Now E w')]\<rparr>)"

text \<open>
  \<open>recover\<close> (lines 135-153). The whole body runs with the exclusive lock held, so one
  call is one atomic transition of the durable reporter. \<open>go r.r.Close()\<close> is recorded
  as \<open>EvGoClose\<close> of the reporter that was active before the swap.
\<close>

definition recover ::
  "('w, 'x) env_scheme \<Rightarrow> reporter \<Rightarrow> (durableReporter, 'w) st
     \<Rightarrow> error option \<times> (durableReporter, 'w) st" where
  "recover E reporter s =
    (let d = obj s in
     if dr_r d \<noteq> reporter then (None, s)
     else if time_Sub (time_Now E (world s)) (dr_lastRecovery d) < sint (dr_interval d)
       then (None, s)
     else
       (case NewReporter E (dr_server d) (world s) of
          (res, w') \<Rightarrow>
            let tr = trace s @ [EvNewReporter (dr_server d) (time_Now E (world s)) (time_Now E w')]
            in
            (case res of
               Inl e \<Rightarrow>
                 (Some e,
                  \<lparr>obj = d\<lparr>dr_lastRecovery := time_Now E w'\<rparr>, world = w', trace = tr\<rparr>)
             | Inr reporter' \<Rightarrow>
                 (None,
                  \<lparr>obj = d\<lparr>dr_r := reporter', dr_lastRecovery := time_Now E w'\<rparr>,
                   world = w', trace = tr @ [EvGoClose (dr_r d)]\<rparr>))))"

text \<open>
  \<open>assess\<close> (lines 115-132). The result is \<open>(reattempt, resultingError)\<close>. The spawned
  \<open>go r.recover(reporter)\<close> of the last attempt is recorded as \<open>EvGoRecover\<close> and runs
  later, as a \<open>recover\<close> transition of its own; the blocking call is recorded as
  \<open>EvRecover\<close> and runs in place.
\<close>

definition assess ::
  "('w, 'x) env_scheme \<Rightarrow> 64 word \<Rightarrow> reporter \<Rightarrow> error option
     \<Rightarrow> (durableReporter, 'w) st \<Rightarrow> (bool \<times> error option) \<times> (durableReporter, 'w) st" where
  "assess E attempt reporter err s =
    (if err = None then ((False, err), s)
     else if err = Some ErrClosed then ((False, err), s)
     else if attempt + 1 \<ge> dr_attempts (obj s)
       then ((False, err), s\<lparr>trace := trace s @ [EvGoRecover reporter]\<rparr>)
     else
       (case recover E reporter (s\<lparr>trace := trace s @ [EvRecover reporter]\<rparr>) of
          (rerr, s') \<Rightarrow> if rerr \<noteq> None then ((True, rerr), s') else ((True, err), s')))"

text \<open>
  The loop of \<open>attempt\<close> (lines 97-111), from iteration \<open>i\<close> with the current value
  \<open>err\<close> of the named result. \<open>n\<close> is \<open>r.attempts\<close>, which no code writes after
  construction. Every invocation of the action is recorded as \<open>EvAction\<close>.
\<close>

function attempt_loop ::
  "('w, 'x) env_scheme \<Rightarrow> 'w reporterAction \<Rightarrow> 64 word \<Rightarrow> 64 word \<Rightarrow> error option
     \<Rightarrow> (durableReporter, 'w) st \<Rightarrow> error option \<times> (durableReporter, 'w) st" where
  "attempt_loop E action n i err s =
    (if i < n then
       (let reporter = dr_r (obj s) in
        case action reporter (world s) of
          (e, w') \<Rightarrow>
            (case assess E i reporter e
                    (s\<lparr>world := w', trace := trace s @ [EvAction reporter]\<rparr>) of
               ((reattempt, e'), s') \<Rightarrow>
                 if \<not> reattempt then (e', s') else attempt_loop E action n (i + 1) e' s'))
     else (err, s))"
  by pat_completeness auto
termination
proof (relation "measure (\<lambda>(E, action, n, i, err, s). unat n - unat i)", goal_cases)
  case 1
  show ?case by simp
next
  case (2 E action n i err s)
  from \<open>i < n\<close> have "unat (i + 1) = Suc (unat i)"
    by unat_arith
  moreover from \<open>i < n\<close> have "unat i < unat n"
    by (simp add: word_less_nat_alt)
  ultimately show ?case
    by simp
qed

definition attempt ::
  "('w, 'x) env_scheme \<Rightarrow> 'w reporterAction \<Rightarrow> (durableReporter, 'w) st
     \<Rightarrow> error option \<times> (durableReporter, 'w) st" where
  "attempt E action s = attempt_loop E action (dr_attempts (obj s)) 0 None s"

text \<open>
  Concurrent callers: every \<open>recover\<close> runs under the exclusive lock, so the recoveries
  of all goroutines (blocking or spawned) form a sequence. Between two of them the
  other goroutines change the world (\<open>elapse\<close>: time passes, calls are made); only
  \<open>recover\<close> writes \<open>r.r\<close> and \<open>r.lastRecovery\<close>. Each request carries the reporter its
  caller had snapshotted.
\<close>

fun recover_all ::
  "('w, 'x) env_scheme \<Rightarrow> (('w \<Rightarrow> 'w) \<times> reporter) list \<Rightarrow> (durableReporter, 'w) st
     \<Rightarrow> (durableReporter, 'w) st" where
  "recover_all E [] s = s"
| "recover_all E ((elapse, reporter) # reqs) s =
     recover_all E reqs (snd (recover E reporter (s\<lparr>world := elapse (world s)\<rparr>)))"

text \<open>The begin and end instants of the constructions recorded in a trace, in order.\<close>

fun constructions :: "event list \<Rightarrow> (instant \<times> instant) list" where
  "constructions [] = []"
| "constructions (EvNewReporter srv t0 t1 # tr) = (t0, t1) # constructions tr"
| "constructions (ev # tr) = constructions tr"

text \<open>
  The clock is monotonic: it does not run backwards while \<open>NewReporter\<close> runs, nor
  while other goroutines run.
\<close>

definition clock_monotone :: "('w, 'x) env_scheme \<Rightarrow> bool" where
  "clock_monotone E = (\<forall>srv w. time_Now E w \<le> time_Now E (snd (NewReporter E srv w)))"

definition elapses :: "('w, 'x) env_scheme \<Rightarrow> (('w \<Rightarrow> 'w) \<times> reporter) list \<Rightarrow> bool" where
  "elapses E reqs = list_all (\<lambda>(elapse, rep). \<forall>w. time_Now E w \<le> time_Now E (elapse w)) reqs"

text \<open>
  \<open>spaced I cs\<close>: every construction of \<open>cs\<close> begins at least \<open>I\<close> after each earlier one
  has ended.
\<close>

fun spaced :: "int \<Rightarrow> (instant \<times> instant) list \<Rightarrow> bool" where
  "spaced I [] = True"
| "spaced I (c # cs) = (list_all (\<lambda>d. I \<le> fst d - snd c) cs \<and> spaced I cs)"

definition rate_inv :: "('w, 'x) env_scheme \<Rightarrow> (durableReporter, 'w) st \<Rightarrow> bool" where
  "rate_inv E s =
    (dr_lastRecovery (obj s) \<le> time_Now E (world s)
     \<and> list_all (\<lambda>c. snd c \<le> dr_lastRecovery (obj s)) (constructions (trace s))
     \<and> spaced (sint (dr_interval (obj s))) (constructions (trace s)))"

text \<open>
  Concrete collaborators for the examples. The world is the clock. \<open>env_down\<close>: the
  server is offline, every \<open>NewReporter\<close> fails after one nanosecond. \<open>env_up\<close>: every
  \<open>NewReporter\<close> succeeds after three nanoseconds and returns a reporter named by the
  instant of its creation. \<open>act_fail\<close>: the call fails with an error that is not
  \<open>ErrClosed\<close>; \<open>act_closed\<close>: the call fails with \<open>ErrClosed\<close>.
\<close>

definition env_down :: "int env" where
  "env_down = \<lparr>NewReporter = (\<lambda>srv w. (Inl ErrDisconnected, w + 1)), time_Now = (\<lambda>w. w)\<rparr>"

definition env_up :: "int env" where
  "env_up = \<lparr>NewReporter = (\<lambda>srv w. (Inr (nat w), w + 3)), time_Now = (\<lambda>w. w)\<rparr>"

definition act_fail :: "int reporterAction" where
  "act_fail = (\<lambda>rep w. (Some (OtherError ''boom''), w + 1))"

definition act_closed :: "int reporterAction" where
  "act_closed = (\<lambda>rep w. (Some ErrClosed, w + 1))"

definition dstate0 :: "64 word \<Rightarrow> (durableReporter, int) st" where
  "dstate0 retries =
    \<lparr>obj = \<lparr>dr_server = ''srv'', dr_interval = 0, dr_attempts = retries + 1, dr_r = 7,
            dr_lastRecovery = 0\<rparr>,
     world = 0, trace = []\<rparr>"

text \<open>
  A durable reporter made at instant 0 with interval 5 and one retry, and four
  recoveries: ten nanoseconds later, with the current reporter; one nanosecond later,
  with the current reporter (inside the interval); one nanosecond later, with a stale
  reporter; nine nanoseconds later, with the current reporter.
\<close>

definition dstate1 :: "(durableReporter, int) st" where
  "dstate1 =
    \<lparr>obj = \<lparr>dr_server = ''srv'', dr_interval = 5, dr_attempts = 2, dr_r = 0,
            dr_lastRecovery = 3\<rparr>,
     world = 3, trace = [EvNewReporter ''srv'' 0 3]\<rparr>"

definition reqs0 :: "((int \<Rightarrow> int) \<times> reporter) list" where
  "reqs0 = [(\<lambda>w. w + 10, 0), (\<lambda>w. w + 1, 13), (\<lambda>w. w + 1, 0), (\<lambda>w. w + 9, 13)]"

section \<open>The client (helper/client.go)\<close>

text \<open>
  The constructors and methods of the reporters a client owns are further parameters,
  and so is the Unicode case mapping of the standard library (see \<open>ToLower\<close>). A call
  that returns \<open>(value, err)\<close> is modelled by a sum: \<open>Inl\<close> the error when it is not
  \<open>nil\<close>, else \<open>Inr\<close> the value.
\<close>

type_synonym report = "nat \<times> string"

record 'w client_env = "'w env" +
  NewLimiter :: "reporter \<Rightarrow> nat \<Rightarrow> 'w \<Rightarrow> (error + reporter) \<times> 'w"
  NewCacher :: "reporter \<Rightarrow> duration \<Rightarrow> 'w \<Rightarrow> reporter \<times> 'w"
  rep_Vector :: "reporter \<Rightarrow> guid \<Rightarrow> 'w \<Rightarrow> (error + vector) \<times> 'w"
  rep_Backlog :: "reporter \<Rightarrow> vector \<Rightarrow> 'w \<Rightarrow> (error + int list) \<times> 'w"
  rep_Report :: "reporter \<Rightarrow> guid \<Rightarrow> vector \<Rightarrow> bool \<Rightarrow> bool \<Rightarrow> 'w \<Rightarrow> (error + report) \<times> 'w"
  rep_Close :: "reporter \<Rightarrow> 'w \<Rightarrow> 'w"
  vec_Close :: "vector \<Rightarrow> 'w \<Rightarrow> 'w"
  unicode_ToLower :: "string \<Rightarrow> string"

text \<open>
  The fields of \<open>Client\<close> but the mutex, which is part of the concurrent model below.
  The map is an association list with distinct keys; \<open>map_of\<close> reads it and
  \<open>map_update\<close> writes it as \<open>c.servers[fqdn] = r\<close> does.
\<close>

record Client =
  caching :: bool
  cacheDuration :: duration
  servers :: "(string \<times> reporter) list"

fun map_update :: "'k \<Rightarrow> 'v \<Rightarrow> ('k \<times> 'v) list \<Rightarrow> ('k \<times> 'v) list" where
  "map_update k v [] = [(k, v)]"
| "map_update k v ((k', v') # kvs) =
     (if k' = k then (k, v) # kvs else (k', v') # map_update k v kvs)"

definition NewClient :: "Client" where
  "NewClient = \<lparr>caching = False, cacheDuration = 0, servers = []\<rparr>"

definition NewCachingClient :: "duration \<Rightarrow> Client" where
  "NewCachingClient d = \<lparr>caching = True, cacheDuration = d, servers = []\<rparr>"

text \<open>
  \<open>strings.ToLower\<close> (called at line 98). A Go string is a sequence of bytes. When every
  byte is below \<open>utf8.RuneSelf\<close> (128) the string is ASCII, and the bytes \<open>A\<close> to \<open>Z\<close> are
  moved to \<open>a\<close> to \<open>z\<close> (\<open>c += 'a' - 'A'\<close>) while every other byte is kept. Any other
  string is decoded as UTF-8 and mapped rune by rune through \<open>unicode.ToLower\<close>; that
  mapping is the parameter \<open>unicode_ToLower\<close>.
\<close>

definition is_ascii :: "string \<Rightarrow> bool" where
  "is_ascii s = list_all (\<lambda>c. of_char c < (128 :: nat)) s"

definition lower_byte :: "char \<Rightarrow> char" where
  "lower_byte c =
    (if (65 :: nat) \<le> of_char c \<and> of_char c \<le> (90 :: nat)
     then char_of (of_char c + (32 :: nat)) else c)"

definition ToLower :: "('w, 'x) client_env_scheme \<Rightarrow> string \<Rightarrow> string" where
  "ToLower E s = (if is_ascii s then map lower_byte s else unicode_ToLower E s)"

text \<open>
  Two strings differ only by letter case when they have the same length and at every
  position hold the same byte or the two cases of the same letter of \<open>A\<close> to \<open>Z\<close>.
\<close>

definition letter_pairs :: "(char \<times> char) list" where
  "letter_pairs = zip ''ABCDEFGHIJKLMNOPQRSTUVWXYZ'' ''abcdefghijklmnopqrstuvwxyz''"

definition same_letter :: "char \<Rightarrow> char \<Rightarrow> bool" where
  "same_letter c d = (c = d \<or> (c, d) \<in> set letter_pairs \<or> (d, c) \<in> set letter_pairs)"

definition differ_only_by_case :: "string \<Rightarrow> string \<Rightarrow> bool" where
  "differ_only_by_case a b = list_all2 same_letter a b"

text \<open>\<open>create\<close> (lines 115-128).\<close>

definition create ::
  "('w, 'x) client_env_scheme \<Rightarrow> string \<Rightarrow> (Client, 'w) st \<Rightarrow> (error + reporter) \<times> (Client, 'w) st" where
  "create E fqdn s =
    (case NewReporter E fqdn (world s) of
       (res, w1) \<Rightarrow>
         let tr = trace s @ [EvNewReporter fqdn (time_Now E (world s)) (time_Now E w1)] in
         (case res of
            Inl e \<Rightarrow> (Inl e, s\<lparr>world := w1, trace := tr\<rparr>)
          | Inr r \<Rightarrow>
              (case NewLimiter E r 1 w1 of
                 (Inl e, w2) \<Rightarrow> (Inl e, s\<lparr>world := w2, trace := tr\<rparr>)
               | (Inr r', w2) \<Rightarrow>
                   if caching (obj s)
                   then (case NewCacher E r' (cacheDuration (obj s)) w2 of
                           (r'', w3) \<Rightarrow> (Inr r'', s\<lparr>world := w3, trace := tr\<rparr>))
                   else (Inr r', s\<lparr>world := w2, trace := tr\<rparr>))))"

text \<open>
  \<open>server\<close> (lines 97-113) has two critical sections. \<open>server_insert\<close> is the second
  (lines 105-112), run with the exclusive lock held on the lower-case name: it creates
  the reporter and stores it, without looking the name up again.
\<close>

definition server_insert ::
  "('w, 'x) client_env_scheme \<Rightarrow> string \<Rightarrow> (Client, 'w) st \<Rightarrow> (error + reporter) \<times> (Client, 'w) st" where
  "server_insert E fqdn s =
    (case create E fqdn s of
       (Inl e, s') \<Rightarrow> (Inl e, s')
     | (Inr r, s') \<Rightarrow>
         (Inr r, s'\<lparr>obj := (obj s')\<lparr>servers := map_update fqdn r (servers (obj s'))\<rparr>\<rparr>))"

text \<open>
  \<open>server\<close> run by one goroutine with no other goroutine using the client: the first
  critical section (lines 99-101) looks the lower-case name up, and on a miss the second
  follows at once.
\<close>

definition server ::
  "('w, 'x) client_env_scheme \<Rightarrow> string \<Rightarrow> (Client, 'w) st \<Rightarrow> (error + reporter) \<times> (Client, 'w) st" where
  "server E fqdn s =
    (let fqdn' = ToLower E fqdn in
     case map_of (servers (obj s)) fqdn' of
       Some r \<Rightarrow> (Inr r, s)
     | None \<Rightarrow> server_insert E fqdn' s)"

text \<open>\<open>Backlog\<close> (lines 55-73). The deferred \<open>v.Close()\<close> runs after \<open>f.Backlog(v)\<close>.\<close>

definition Backlog ::
  "('w, 'x) client_env_scheme \<Rightarrow> string \<Rightarrow> string \<Rightarrow> guid \<Rightarrow> (Client, 'w) st
     \<Rightarrow> (error + int list) \<times> (Client, 'w) st" where
  "Backlog E from to grp s =
    (case server E from s of
       (Inl e, s1) \<Rightarrow> (Inl e, s1)
     | (Inr f, s1) \<Rightarrow>
         (case server E to s1 of
            (Inl e, s2) \<Rightarrow> (Inl e, s2)
          | (Inr t, s2) \<Rightarrow>
              (case rep_Vector E t grp (world s2) of
                 (Inl e, w3) \<Rightarrow>
                   (Inl e, s2\<lparr>world := w3, trace := trace s2 @ [EvVector t grp]\<rparr>)
               | (Inr v, w3) \<Rightarrow>
                   (case rep_Backlog E f v w3 of
                      (res, w4) \<Rightarrow>
                        (res, s2\<lparr>world := vec_Close E v w4,
                                  trace := trace s2 @ [EvVector t grp, EvBacklog f v,
                                                       EvVectorClose v]\<rparr>)))))"

text \<open>\<open>Vector\<close> (lines 78-85) and \<open>Report\<close> (lines 88-95).\<close>

definition Vector ::
  "('w, 'x) client_env_scheme \<Rightarrow> string \<Rightarrow> guid \<Rightarrow> (Client, 'w) st
     \<Rightarrow> (error + vector) \<times> (Client, 'w) st" where
  "Vector E srv grp s =
    (case server E srv s of
       (Inl e, s1) \<Rightarrow> (Inl e, s1)
     | (Inr r, s1) \<Rightarrow>
         (case rep_Vector E r grp (world s1) of
            (res, w2) \<Rightarrow> (res, s1\<lparr>world := w2, trace := trace s1 @ [EvVector r grp]\<rparr>)))"

definition Report ::
  "('w, 'x) client_env_scheme \<Rightarrow> string \<Rightarrow> guid \<Rightarrow> vector \<Rightarrow> bool \<Rightarrow> bool \<Rightarrow> (Client, 'w) st
     \<Rightarrow> (error + report) \<times> (Client, 'w) st" where
  "Report E srv grp v backlog files s =
    (case server E srv s of
       (Inl e, s1) \<Rightarrow> (Inl e, s1)
     | (Inr r, s1) \<Rightarrow>
         (case rep_Report E r grp v backlog files (world s1) of
            (res, w2) \<Rightarrow>
              (res, s1\<lparr>world := w2,
                        trace := trace s1 @ [EvReport r grp v backlog files]\<rparr>)))"

text \<open>
  The body of \<open>Close\<close> (lines 46-49): every owned reporter is closed and the map is
  replaced by an empty one.
\<close>

definition close_all :: "('w, 'x) client_env_scheme \<Rightarrow> (Client, 'w) st \<Rightarrow> (Client, 'w) st" where
  "close_all E s =
    \<lparr>obj = (obj s)\<lparr>servers := []\<rparr>,
     world = fold (\<lambda>kv w. rep_Close E (snd kv) w) (servers (obj s)) (world s),
     trace = trace s @ map (\<lambda>kv. EvClose (snd kv)) (servers (obj s))\<rparr>"

fun is_backlog :: "event \<Rightarrow> bool" where
  "is_backlog (EvBacklog f v) = True"
| "is_backlog ev = False"

text \<open>
  Concrete collaborators for the examples. The world is a counter that names the next
  object and is the clock. The host \<open>down\<close> is offline, no vector can be fetched for
  group 0, and the reporter named 1 cannot compute a backlog. The names of the examples
  are ASCII, so the Unicode case mapping is never reached; it is the identity here.
\<close>

definition cenv0 :: "nat client_env" where
  "cenv0 =
    \<lparr>NewReporter = (\<lambda>srv w. (if srv = ''down'' then Inl ErrDisconnected else Inr w, w + 1)),
     time_Now = (\<lambda>w. int w),
     NewLimiter = (\<lambda>r n w. (if n = 0 then Inl ErrZeroWorkers else Inr w, w + 1)),
     NewCacher = (\<lambda>r d w. (w, w + 1)),
     rep_Vector = (\<lambda>r g w. (if g = 0 then Inl (OtherError ''no vector'') else Inr w, w + 1)),
     rep_Backlog = (\<lambda>r v w. (if r = 1 then Inl (OtherError ''no backlog'') else Inr [int v], w + 1)),
     rep_Report = (\<lambda>r g v b f w. (Inr (0, ''report''), w + 1)),
     rep_Close = (\<lambda>r w. w + 1),
     vec_Close = (\<lambda>v w. w + 1),
     unicode_ToLower = (\<lambda>s. s)\<rparr>"

definition cstate0 :: "(Client, nat) st" where
  "cstate0 = \<lparr>obj = NewClient, world = 0, trace = []\<rparr>"

section \<open>Goroutines on one client\<close>

text \<open>
  \<open>sync.RWMutex\<close>: held by one writer or by any number of readers. \<open>RLock\<close> and \<open>Lock\<close>
  return \<open>None\<close> where the call blocks. (Go also holds new readers back while a writer
  waits; that only removes interleavings.)
\<close>

record rwmutex =
  writer :: bool
  readers :: nat

definition RLock :: "rwmutex \<Rightarrow> rwmutex option" where
  "RLock m = (if writer m then None else Some (m\<lparr>readers := readers m + 1\<rparr>))"

definition RUnlock :: "rwmutex \<Rightarrow> rwmutex" where
  "RUnlock m = m\<lparr>readers := readers m - 1\<rparr>"

definition Lock :: "rwmutex \<Rightarrow> rwmutex option" where
  "Lock m = (if writer m \<or> 0 < readers m then None else Some (m\<lparr>writer := True\<rparr>))"

definition Unlock :: "rwmutex \<Rightarrow> rwmutex" where
  "Unlock m = m\<lparr>writer := False\<rparr>"

text \<open>
  The calls a goroutine makes on the client, and the places at which a call can stand.
  In \<open>server\<close>: before \<open>c.m.RLock()\<close> (line 99, the name already in lower case); with the
  read lock, before the lookup and \<open>RUnlock\<close> (lines 100-101); after a miss, before
  \<open>c.m.Lock()\<close> (line 105); with the exclusive lock, before \<open>create\<close>, the store and the
  deferred \<open>Unlock\<close> (lines 107-112); returned. In \<open>Close\<close>: before \<open>c.m.Lock()\<close> (line
  44); with the exclusive lock, before the body (lines 46-49); at the deferred
  \<open>c.m.Lock()\<close> of line 45, which runs when the body is done; returned.
\<close>

datatype call = CallServer string | CallClose

datatype pc =
    Srv_RLock string
  | Srv_Lookup string
  | Srv_Lock string
  | Srv_Create string
  | Srv_Return "error + reporter"
  | Cls_Lock
  | Cls_Body
  | Cls_Deferred
  | Cls_Return

fun start :: "('w, 'x) client_env_scheme \<Rightarrow> call \<Rightarrow> pc" where
  "start E (CallServer fqdn) = Srv_RLock (ToLower E fqdn)"
| "start E CallClose = Cls_Lock"

record 'w csys =
  cst :: "(Client, 'w) st"
  mtx :: rwmutex
  threads :: "pc list"

text \<open>
  One step of a goroutine: a lock operation, or a critical section up to its unlock.
  \<open>None\<close>: the goroutine is blocked or has returned.
\<close>

fun thread_step ::
  "('w, 'x) client_env_scheme \<Rightarrow> pc \<Rightarrow> (Client, 'w) st \<Rightarrow> rwmutex
     \<Rightarrow> (pc \<times> (Client, 'w) st \<times> rwmutex) option" where
  "thread_step E (Srv_RLock k) s m =
     (case RLock m of None \<Rightarrow> None | Some m' \<Rightarrow> Some (Srv_Lookup k, s, m'))"
| "thread_step E (Srv_Lookup k) s m =
     (case map_of (servers (obj s)) k of
        Some r \<Rightarrow> Some (Srv_Return (Inr r), s, RUnlock m)
      | None \<Rightarrow> Some (Srv_Lock k, s, RUnlock m))"
| "thread_step E (Srv_Lock k) s m =
     (case Lock m of None \<Rightarrow> None | Some m' \<Rightarrow> Some (Srv_Create k, s, m'))"
| "thread_step E (Srv_Create k) s m =
     (case server_insert E k s of (res, s') \<Rightarrow> Some (Srv_Return res, s', Unlock m))"
| "thread_step E (Srv_Return res) s m = None"
| "thread_step E Cls_Lock s m =
     (case Lock m of None \<Rightarrow> None | Some m' \<Rightarrow> Some (Cls_Body, s, m'))"
| "thread_step E Cls_Body s m = Some (Cls_Deferred, close_all E s, m)"
| "thread_step E Cls_Deferred s m =
     (case Lock m of None \<Rightarrow> None | Some m' \<Rightarrow> Some (Cls_Return, s, m'))"
| "thread_step E Cls_Return s m = None"

text \<open>
  The scheduler picks goroutine \<open>i\<close>; a blocked or returned goroutine leaves the system
  as it is.
\<close>

definition step :: "('w, 'x) client_env_scheme \<Rightarrow> nat \<Rightarrow> 'w csys \<Rightarrow> 'w csys" where
  "step E i sys =
    (if i < length (threads sys) then
       (case thread_step E (threads sys ! i) (cst sys) (mtx sys) of
          None \<Rightarrow> sys
        | Some (p, s, m) \<Rightarrow> \<lparr>cst = s, mtx = m, threads = (threads sys)[i := p]\<rparr>)
     else sys)"

fun run :: "('w, 'x) client_env_scheme \<Rightarrow> nat list \<Rightarrow> 'w csys \<Rightarrow> 'w csys" where
  "run E [] sys = sys"
| "run E (i # sched) sys = run E sched (step E i sys)"

text \<open>A client nobody holds a lock on, and goroutines about to make their calls.\<close>

definition init ::
  "('w, 'x) client_env_scheme \<Rightarrow> (Client, 'w) st \<Rightarrow> call list \<Rightarrow> 'w csys" where
  "init E s calls =
    \<lparr>cst = s, mtx = \<lparr>writer = False, readers = 0\<rparr>, threads = map (start E) calls\<rparr>"

fun holds_shared :: "pc \<Rightarrow> bool" where
  "holds_shared (Srv_Lookup k) = True"
| "holds_shared p = False"

fun holds_exclusive :: "pc \<Rightarrow> bool" where
  "holds_exclusive (Srv_Create k) = True"
| "holds_exclusive Cls_Body = True"
| "holds_exclusive Cls_Deferred = True"
| "holds_exclusive p = False"

text \<open>
  The mutex and the goroutines agree: the readers are the goroutines in the first
  critical section of \<open>server\<close>, the writer is the one goroutine in the second critical
  section of \<open>server\<close> or past the first \<open>Lock\<close> of \<open>Close\<close>, and no \<open>Close\<close> has returned.
\<close>

definition lock_inv :: "'w csys \<Rightarrow> bool" where
  "lock_inv sys =
    (length (filter holds_shared (threads sys)) = readers (mtx sys)
     \<and> length (filter holds_exclusive (threads sys)) = (if writer (mtx sys) then 1 else 0)
     \<and> (writer (mtx sys) \<longrightarrow> readers (mtx sys) = 0)
     \<and> Cls_Return \<notin> set (threads sys))"

text \<open>While a \<open>Close\<close> stands at its deferred \<open>Lock\<close>, the map is empty.\<close>

definition closed_inv :: "'w csys \<Rightarrow> bool" where
  "closed_inv sys = (Cls_Deferred \<in> set (threads sys) \<longrightarrow> servers (obj (cst sys)) = [])"

fun is_construction_of :: "string \<Rightarrow> event \<Rightarrow> bool" where
  "is_construction_of k (EvNewReporter srv t0 t1) = (srv = k)"
| "is_construction_of k ev = False"

section \<open>The poller (poller/poller.go)\<close>

text \<open>
  The fields of \<open>Poller\<close> that its code reads and writes. A channel is modelled by
  whether it has been closed. The mutex and the condition variable are not fields: a
  critical section is one atomic step, and a goroutine inside \<open>p.idle.Wait()\<close> is at a
  place of its own.
\<close>

record Poller =
  interval :: duration
  updating :: bool
  pulse_closed :: bool
  stop_closed :: bool
  closed :: bool

text \<open>
  The places of an \<open>update\<close> goroutine (lines 99-111): before \<open>startUpdate\<close>; inside
  \<open>p.source.Poll\<close>; after it, before the critical section of \<open>finishUpdate\<close>; before
  \<open>p.idle.Broadcast()\<close>; returned. The places of a \<open>Close\<close> call (lines 43-64): before
  \<open>p.mutex.Lock()\<close>; inside \<open>p.idle.Wait()\<close>, not yet woken; woken, before \<open>Wait\<close> takes
  the mutex again; returned.
\<close>

datatype upc = U_Start | U_Polling | U_Finish | U_Broadcast | U_Done

datatype cpc = C_Start | C_Waiting | C_Woken | C_Done

text \<open>
  The calls made on the polling source, in order: \<open>Poll\<close> entered and left by update
  goroutine \<open>i\<close>, \<open>Close\<close> called by the \<open>Close\<close> call \<open>j\<close> of the poller.
\<close>

datatype source_call = PollBegin nat | PollEnd nat | SourceClose nat

record psys =
  poller :: Poller
  running :: bool
  updates :: "upc list"
  closes :: "cpc list"
  source_calls :: "source_call list"

text \<open>
  \<open>New\<close> (lines 28-38): the \<open>run\<close> goroutine is started, nothing else has happened.
\<close>

definition New :: "duration \<Rightarrow> psys" where
  "New ival =
    \<lparr>poller = \<lparr>interval = ival, updating = False, pulse_closed = False, stop_closed = False,
                closed = False\<rparr>,
     running = True, updates = [], closes = [], source_calls = []\<rparr>"

text \<open>\<open>startUpdate\<close> (lines 113-121) and the critical section of \<open>finishUpdate\<close> (124-126).\<close>

definition startUpdate :: "Poller \<Rightarrow> bool \<times> Poller" where
  "startUpdate p =
    (if \<not> closed p \<and> \<not> updating p then (True, p\<lparr>updating := True\<rparr>) else (False, p))"

definition finishUpdate :: "Poller \<Rightarrow> Poller" where
  "finishUpdate p = p\<lparr>updating := False\<rparr>"

text \<open>\<open>Broadcast\<close> wakes every goroutine that waits on the condition.\<close>

fun wake :: "cpc \<Rightarrow> cpc" where
  "wake C_Waiting = C_Woken"
| "wake c = c"

text \<open>One step of update goroutine \<open>i\<close>.\<close>

definition upd_step :: "nat \<Rightarrow> psys \<Rightarrow> psys" where
  "upd_step i s =
    (case updates s ! i of
       U_Start \<Rightarrow>
         (case startUpdate (poller s) of
            (True, p) \<Rightarrow>
              s\<lparr>poller := p, updates := (updates s)[i := U_Polling],
                source_calls := source_calls s @ [PollBegin i]\<rparr>
          | (False, p) \<Rightarrow> s\<lparr>poller := p, updates := (updates s)[i := U_Done]\<rparr>)
     | U_Polling \<Rightarrow>
         s\<lparr>updates := (updates s)[i := U_Finish], source_calls := source_calls s @ [PollEnd i]\<rparr>
     | U_Finish \<Rightarrow>
         s\<lparr>poller := finishUpdate (poller s), updates := (updates s)[i := U_Broadcast]\<rparr>
     | U_Broadcast \<Rightarrow>
         s\<lparr>updates := (updates s)[i := U_Done], closes := map wake (closes s)\<rparr>
     | U_Done \<Rightarrow> s)"

text \<open>
  The loop \<open>for p.updating { p.idle.Wait() }\<close> and what follows it (lines 58-63), run
  with the mutex held by \<open>Close\<close> call \<open>j\<close>: either \<open>Wait\<close> releases the mutex and
  suspends the caller, or the source is closed and \<open>Close\<close> returns.
\<close>

definition wait_or_close :: "nat \<Rightarrow> psys \<Rightarrow> psys" where
  "wait_or_close j s =
    (if updating (poller s) then s\<lparr>closes := (closes s)[j := C_Waiting]\<rparr>
     else s\<lparr>closes := (closes s)[j := C_Done], source_calls := source_calls s @ [SourceClose j]\<rparr>)"

text \<open>One step of \<open>Close\<close> call \<open>j\<close> (lines 43-64).\<close>

definition cls_step :: "nat \<Rightarrow> psys \<Rightarrow> psys" where
  "cls_step j s =
    (case closes s ! j of
       C_Start \<Rightarrow>
         if closed (poller s) then s\<lparr>closes := (closes s)[j := C_Done]\<rparr>
         else wait_or_close j
                (s\<lparr>poller := (poller s)\<lparr>closed := True, stop_closed := True,
                                          pulse_closed := True\<rparr>\<rparr>)
     | C_Waiting \<Rightarrow> s
     | C_Woken \<Rightarrow> wait_or_close j s
     | C_Done \<Rightarrow> s)"

text \<open>
  What can happen next. \<open>Tick\<close>: the \<open>select\<close> of \<open>run\<close> (lines 87-93) takes the ticker,
  or the pulse channel once it is closed, and \<open>run\<close> starts an update goroutine.
  \<open>PollCall\<close>: a goroutine calls \<open>Poll\<close> (lines 68-74), whose send on the pulse channel
  is received by \<open>run\<close>, which starts an update goroutine; on a closed poller \<open>Poll\<close>
  does nothing. \<open>RunStop\<close>: the \<open>select\<close> takes the closed stop channel and \<open>run\<close>
  returns. \<open>CloseCall\<close>: a goroutine calls \<open>Close\<close>. \<open>Upd i\<close> and \<open>Cls j\<close>: update
  goroutine \<open>i\<close>, or \<open>Close\<close> call \<open>j\<close>, takes its next step.
\<close>

datatype sched = Tick | PollCall | RunStop | CloseCall | Upd nat | Cls nat

fun pstep :: "sched \<Rightarrow> psys \<Rightarrow> psys" where
  "pstep Tick s = (if running s then s\<lparr>updates := updates s @ [U_Start]\<rparr> else s)"
| "pstep PollCall s =
     (if \<not> closed (poller s) \<and> running s then s\<lparr>updates := updates s @ [U_Start]\<rparr> else s)"
| "pstep RunStop s =
     (if running s \<and> stop_closed (poller s) then s\<lparr>running := False\<rparr> else s)"
| "pstep CloseCall s = s\<lparr>closes := closes s @ [C_Start]\<rparr>"
| "pstep (Upd i) s = (if i < length (updates s) then upd_step i s else s)"
| "pstep (Cls j) s = (if j < length (closes s) then cls_step j s else s)"

fun prun :: "sched list \<Rightarrow> psys \<Rightarrow> psys" where
  "prun [] s = s"
| "prun (e # es) s = prun es (pstep e s)"

fun in_update :: "upc \<Rightarrow> bool" where
  "in_update U_Polling = True"
| "in_update U_Finish = True"
| "in_update u = False"

fun in_poll :: "upc \<Rightarrow> bool" where
  "in_poll U_Polling = True"
| "in_poll u = False"

fun waiting :: "cpc \<Rightarrow> bool" where
  "waiting C_Waiting = True"
| "waiting C_Woken = True"
| "waiting c = False"

fun is_poll_begin :: "source_call \<Rightarrow> bool" where
  "is_poll_begin (PollBegin i) = True"
| "is_poll_begin c = False"

fun is_poll_end :: "source_call \<Rightarrow> bool" where
  "is_poll_end (PollEnd i) = True"
| "is_poll_end c = False"

fun is_source_close :: "source_call \<Rightarrow> bool" where
  "is_source_close (SourceClose j) = True"
| "is_source_close c = False"

text \<open>
  What holds in every state the poller can reach: the flag \<open>updating\<close> is set exactly
  while one update goroutine is between \<open>startUpdate\<close> and \<open>finishUpdate\<close>; once the
  poller is closed, exactly one \<open>Close\<close> call either waits or has closed the source;
  after the source has been closed no update is running; and the polls begun are the
  polls ended and the polls in flight.
\<close>

definition pinv :: "psys \<Rightarrow> bool" where
  "pinv s =
    (count_ev in_update (updates s) = (if updating (poller s) then 1 else 0)
     \<and> count_ev is_source_close (source_calls s) + count_ev waiting (closes s)
         = (if closed (poller s) then 1 else 0)
     \<and> (0 < count_ev is_source_close (source_calls s) \<longrightarrow> \<not> updating (poller s))
     \<and> count_ev is_poll_begin (source_calls s)
         = count_ev is_poll_end (source_calls s) + count_ev in_poll (updates s))"

section \<open>Properties of the durable reporter\<close>

lemma count_ev_append [simp]: "count_ev P (xs @ ys) = count_ev P xs + count_ev P ys"
  by (simp add: count_ev_def)

lemma count_ev_Nil [simp]: "count_ev P [] = 0"
  by (simp add: count_ev_def)

lemma count_ev_Cons [simp]: "count_ev P (x # xs) = (if P x then 1 else 0) + count_ev P xs"
  by (simp add: count_ev_def)

declare attempt_loop.simps [simp del]

lemma recover_attempts: "dr_attempts (obj (snd (recover E rep s))) = dr_attempts (obj s)"
  by (simp add: recover_def Let_def split: prod.splits sum.splits)

lemma recover_interval: "dr_interval (obj (snd (recover E rep s))) = dr_interval (obj s)"
  by (simp add: recover_def Let_def split: prod.splits sum.splits)

lemma recover_counts:
  "count_ev is_action (trace (snd (recover E rep s))) = count_ev is_action (trace s)"
  "count_ev is_recover (trace (snd (recover E rep s))) = count_ev is_recover (trace s)"
  "count_ev is_go_recover (trace (snd (recover E rep s))) = count_ev is_go_recover (trace s)"
  "count_ev is_new_reporter (trace (snd (recover E rep s)))
     \<le> Suc (count_ev is_new_reporter (trace s))"
  by (simp_all add: recover_def Let_def split: prod.splits sum.splits)

lemma assess_last:
  assumes "e \<noteq> ErrClosed" and "i + 1 \<ge> dr_attempts (obj s)"
  shows "assess E i rep (Some e) s
           = ((False, Some e), s\<lparr>trace := trace s @ [EvGoRecover rep]\<rparr>)"
  using assms by (simp add: assess_def)

text \<open>
  On an attempt that is not the last, a failure other than \<open>ErrClosed\<close> always asks for
  another attempt, whatever the blocking recovery returned.
\<close>

lemma assess_not_last:
  assumes "e \<noteq> ErrClosed" and "\<not> i + 1 \<ge> dr_attempts (obj s)"
  shows "\<exists>e'. assess E i rep (Some e) s =
           ((True, Some e'), snd (recover E rep (s\<lparr>trace := trace s @ [EvRecover rep]\<rparr>)))"
  using assms by (auto simp add: assess_def split: prod.splits)

lemma attempt_loop_unfold:
  assumes "i < n" and "action (dr_r (obj s)) (world s) = (e, w')"
    and "assess E i (dr_r (obj s)) e
           (s\<lparr>world := w', trace := trace s @ [EvAction (dr_r (obj s))]\<rparr>) = ((re, e'), s')"
  shows "attempt_loop E action n i err s =
           (if re then attempt_loop E action n (i + 1) e' s' else (e', s'))"
  using assms by (subst attempt_loop.simps) (simp add: Let_def)

lemma attempt_loop_always_fails:
  assumes fails: "\<And>rep w. \<exists>e w'. action rep w = (Some e, w') \<and> e \<noteq> ErrClosed"
  shows "k = unat n - unat i \<Longrightarrow> i < n \<Longrightarrow> dr_attempts (obj s) = n \<Longrightarrow>
    \<exists>e s'. attempt_loop E action n i err s = (Some e, s') \<and> e \<noteq> ErrClosed
      \<and> count_ev is_action (trace s') = count_ev is_action (trace s) + (unat n - unat i)
      \<and> count_ev is_recover (trace s') = count_ev is_recover (trace s) + (unat n - unat i - 1)
      \<and> count_ev is_go_recover (trace s') = count_ev is_go_recover (trace s) + 1
      \<and> count_ev is_new_reporter (trace s')
           \<le> count_ev is_new_reporter (trace s) + (unat n - unat i - 1)"
proof (induction k arbitrary: i s err)
  case 0
  then show ?case by (simp add: word_less_nat_alt)
next
  case (Suc k)
  let ?rep = "dr_r (obj s)"
  from fails obtain e w' where act: "action ?rep (world s) = (Some e, w')" and e: "e \<noteq> ErrClosed"
    by blast
  let ?s1 = "s\<lparr>world := w', trace := trace s @ [EvAction ?rep]\<rparr>"
  have att1: "dr_attempts (obj ?s1) = n" using Suc.prems by simp
  from \<open>i < n\<close> have suc: "unat (i + 1) = Suc (unat i)" by unat_arith
  from \<open>i < n\<close> have lt: "unat i < unat n" by (simp add: word_less_nat_alt)
  show ?case
  proof (cases "i + 1 \<ge> n")
    case True
    with \<open>i < n\<close> have "i + 1 = n" using inc_le [of i n] by simp
    then have un: "unat n = Suc (unat i)" using suc by simp
    have as: "assess E i ?rep (Some e) ?s1
                = ((False, Some e), ?s1\<lparr>trace := trace ?s1 @ [EvGoRecover ?rep]\<rparr>)"
      using e True att1 by (intro assess_last) simp_all
    have "attempt_loop E action n i err s
            = (Some e, ?s1\<lparr>trace := trace ?s1 @ [EvGoRecover ?rep]\<rparr>)"
      using attempt_loop_unfold [where action = action and s = s, OF \<open>i < n\<close> act as] by simp
    then show ?thesis using e un by simp
  next
    case False
    then have lt': "i + 1 < n" by simp
    let ?s2 = "snd (recover E ?rep (?s1\<lparr>trace := trace ?s1 @ [EvRecover ?rep]\<rparr>))"
    from assess_not_last [where e = e and i = i and s = ?s1 and E = E and rep = ?rep] e False att1
    obtain e' where as: "assess E i ?rep (Some e) ?s1 = ((True, Some e'), ?s2)"
      by auto
    have step: "attempt_loop E action n i err s = attempt_loop E action n (i + 1) (Some e') ?s2"
      using attempt_loop_unfold [where action = action and s = s, OF \<open>i < n\<close> act as] by simp
    have k: "k = unat n - unat (i + 1)" using Suc.prems(1) suc by simp
    have att2: "dr_attempts (obj ?s2) = n" using att1 by (simp add: recover_attempts)
    from Suc.IH [OF k lt' att2, of "Some e'"]
    obtain e2 s' where IH: "attempt_loop E action n (i + 1) (Some e') ?s2 = (Some e2, s')"
      "e2 \<noteq> ErrClosed"
      "count_ev is_action (trace s') = count_ev is_action (trace ?s2) + (unat n - unat (i + 1))"
      "count_ev is_recover (trace s')
         = count_ev is_recover (trace ?s2) + (unat n - unat (i + 1) - 1)"
      "count_ev is_go_recover (trace s') = count_ev is_go_recover (trace ?s2) + 1"
      "count_ev is_new_reporter (trace s')
         \<le> count_ev is_new_reporter (trace ?s2) + (unat n - unat (i + 1) - 1)"
      by blast
    from lt' have lt2: "unat (i + 1) < unat n" by (simp add: word_less_nat_alt)
    have c1: "count_ev is_action (trace ?s2) = count_ev is_action (trace s) + 1"
      by (simp add: recover_counts)
    have c2: "count_ev is_recover (trace ?s2) = count_ev is_recover (trace s) + 1"
      by (simp add: recover_counts)
    have c3: "count_ev is_go_recover (trace ?s2) = count_ev is_go_recover (trace s)"
      by (simp add: recover_counts)
    have "count_ev is_new_reporter (trace ?s2)
            \<le> Suc (count_ev is_new_reporter (trace (?s1\<lparr>trace := trace ?s1 @ [EvRecover ?rep]\<rparr>)))"
      by (rule recover_counts)
    then have c4: "count_ev is_new_reporter (trace ?s2) \<le> count_ev is_new_reporter (trace s) + 1"
      by simp
    show ?thesis
      using step IH c1 c2 c3 c4 suc lt2 by simp
  qed
qed

lemma attempt_loop_err:
  assumes "i < n"
  shows "attempt_loop E action n i err s = attempt_loop E action n i err' s"
proof -
  obtain e w' where act: "action (dr_r (obj s)) (world s) = (e, w')"
    by (cases "action (dr_r (obj s)) (world s)")
  obtain re e' s' where as: "assess E i (dr_r (obj s)) e
      (s\<lparr>world := w', trace := trace s @ [EvAction (dr_r (obj s))]\<rparr>) = ((re, e'), s')"
    by (metis surj_pair)
  show ?thesis
    using attempt_loop_unfold [where action = action and s = s and err = err, OF assms act as]
      attempt_loop_unfold [where action = action and s = s and err = err', OF assms act as]
    by simp
qed

lemma assess_action_count:
  "count_ev is_action (trace (snd (assess E i rep err s))) = count_ev is_action (trace s)"
proof -
  let ?s1 = "s\<lparr>trace := trace s @ [EvRecover rep]\<rparr>"
  have "count_ev is_action (trace (snd (recover E rep ?s1))) = count_ev is_action (trace s)"
    by (simp add: recover_counts)
  then show ?thesis
    by (cases "recover E rep ?s1") (simp add: assess_def)
qed

lemma attempt_loop_action_count:
  "k = unat n - unat i \<Longrightarrow> i < n \<Longrightarrow>
     count_ev is_action (trace s) + 1
       \<le> count_ev is_action (trace (snd (attempt_loop E action n i err s)))"
proof (induction k arbitrary: i s err)
  case 0
  then show ?case by (simp add: word_less_nat_alt)
next
  case (Suc k)
  let ?rep = "dr_r (obj s)"
  obtain e w' where act: "action ?rep (world s) = (e, w')"
    by (cases "action ?rep (world s)")
  let ?s1 = "s\<lparr>world := w', trace := trace s @ [EvAction ?rep]\<rparr>"
  obtain re e' s' where as: "assess E i ?rep e ?s1 = ((re, e'), s')"
    by (metis surj_pair)
  from assess_action_count [of E i ?rep e ?s1] as
  have c: "count_ev is_action (trace s') = count_ev is_action (trace s) + 1"
    by simp
  note unf = attempt_loop_unfold [where action = action and s = s and err = err,
      OF \<open>i < n\<close> act as]
  show ?case
  proof (cases "re \<and> i + 1 < n")
    case True
    from \<open>i < n\<close> have "unat (i + 1) = Suc (unat i)" by unat_arith
    with Suc.prems(1) have k: "k = unat n - unat (i + 1)" by simp
    from Suc.IH [OF k, of s' e'] True
    have "count_ev is_action (trace s') + 1
            \<le> count_ev is_action (trace (snd (attempt_loop E action n (i + 1) e' s')))"
      by simp
    with unf True c show ?thesis by simp
  next
    case False
    then have "attempt_loop E action n i err s = (e', s')"
      using unf by (auto simp add: attempt_loop.simps [of E action n "i + 1"])
    with c show ?thesis by simp
  qed
qed

text \<open>
  C2 (as amended). On an attempt that is not the last, when the call fails with an error
  other than \<open>ErrClosed\<close>, \<open>assess\<close> enters a blocking recovery and asks for another
  attempt whatever that recovery returned (a new reporter, a failed construction, or
  nothing done): \<open>attempt\<close> goes on with the next iteration from the state the recovery
  left, so the call is invoked again, and a failure of the recreation is not what
  \<open>attempt\<close> returns at that point.
\<close>

theorem C2_failed_attempt_is_retried:
  assumes "i < n" and "\<not> i + 1 \<ge> n" and "dr_attempts (obj s) = n"
    and "action (dr_r (obj s)) (world s) = (Some e, w')" and "e \<noteq> ErrClosed"
  shows "fst (fst (assess E i (dr_r (obj s)) (Some e)
                     (s\<lparr>world := w', trace := trace s @ [EvAction (dr_r (obj s))]\<rparr>)))
    \<and> attempt_loop E action n i err s
        = attempt_loop E action n (i + 1) err
            (snd (recover E (dr_r (obj s))
                   (s\<lparr>world := w',
                      trace := trace s @ [EvAction (dr_r (obj s)), EvRecover (dr_r (obj s))]\<rparr>)))
    \<and> count_ev is_action (trace s) + 2
        \<le> count_ev is_action (trace (snd (attempt_loop E action n i err s)))"
proof -
  let ?rep = "dr_r (obj s)"
  let ?s1 = "s\<lparr>world := w', trace := trace s @ [EvAction ?rep]\<rparr>"
  let ?s2 = "snd (recover E ?rep (?s1\<lparr>trace := trace ?s1 @ [EvRecover ?rep]\<rparr>))"
  from assms(2) have lt: "i + 1 < n" by simp
  from assess_not_last [where e = e and i = i and s = ?s1 and E = E and rep = ?rep] assms(2,3,5)
  obtain e' where as: "assess E i ?rep (Some e) ?s1 = ((True, Some e'), ?s2)"
    by auto
  have "attempt_loop E action n i err s = attempt_loop E action n (i + 1) (Some e') ?s2"
    using attempt_loop_unfold [where action = action and s = s, OF assms(1,4) as] by simp
  also have "\<dots> = attempt_loop E action n (i + 1) err ?s2"
    by (rule attempt_loop_err [OF lt])
  finally have step: "attempt_loop E action n i err s = attempt_loop E action n (i + 1) err ?s2" .
  have "count_ev is_action (trace ?s2) = count_ev is_action (trace s) + 1"
    by (simp add: recover_counts)
  with attempt_loop_action_count [OF refl lt, of ?s2 E action err]
  have "count_ev is_action (trace s) + 2
          \<le> count_ev is_action (trace (snd (attempt_loop E action n (i + 1) err ?s2)))"
    by simp
  with as step show ?thesis
    by simp
qed

theorem C2_failed_attempt_is_retried_witness:
  "(0 :: 64 word) < 2 \<and> \<not> (0 :: 64 word) + 1 \<ge> 2 \<and> dr_attempts (obj (dstate0 1)) = 2
   \<and> act_fail (dr_r (obj (dstate0 1))) (world (dstate0 1)) = (Some (OtherError ''boom''), 1)
   \<and> OtherError ''boom'' \<noteq> ErrClosed
   \<and> fst (recover env_down 7 ((dstate0 1)\<lparr>world := 1, trace := [EvAction 7, EvRecover 7]\<rparr>))
       = Some ErrDisconnected
   \<and> attempt_loop env_down act_fail 2 0 None (dstate0 1)
       = attempt_loop env_down act_fail 2 (0 + 1) None
           (snd (recover env_down 7 ((dstate0 1)\<lparr>world := 1, trace := [EvAction 7, EvRecover 7]\<rparr>)))
   \<and> (2 :: nat) \<le> count_ev is_action (trace (snd (attempt_loop env_down act_fail 2 0 None (dstate0 1))))"
proof -
  have h1: "(0 :: 64 word) < 2" and h2: "\<not> (0 :: 64 word) + 1 \<ge> 2"
    by (simp_all add: word_le_nat_alt)
  have h3: "dr_attempts (obj (dstate0 1)) = 2"
    by (simp add: dstate0_def)
  have h4: "act_fail (dr_r (obj (dstate0 1))) (world (dstate0 1)) = (Some (OtherError ''boom''), 1)"
    by (simp add: act_fail_def dstate0_def)
  have h5: "OtherError ''boom'' \<noteq> ErrClosed"
    by simp
  have rf: "fst (recover env_down 7 ((dstate0 1)\<lparr>world := 1, trace := [EvAction 7, EvRecover 7]\<rparr>))
      = Some ErrDisconnected"
    by (simp add: recover_def time_Sub_def env_down_def dstate0_def)
  have r: "dr_r (obj (dstate0 1)) = 7" "trace (dstate0 1) = []"
    by (simp_all add: dstate0_def)
  note th = C2_failed_attempt_is_retried [where action = act_fail and s = "dstate0 1"
      and E = env_down and err = None, OF h1 h2 h3 h4 h5, unfolded r]
  from th [THEN conjunct2, THEN conjunct1]
  have e1: "attempt_loop env_down act_fail 2 0 None (dstate0 1)
       = attempt_loop env_down act_fail 2 (0 + 1) None
           (snd (recover env_down 7 ((dstate0 1)\<lparr>world := 1, trace := [EvAction 7, EvRecover 7]\<rparr>)))"
    by simp
  from th [THEN conjunct2, THEN conjunct2]
  have e2: "(2 :: nat) \<le> count_ev is_action (trace (snd (attempt_loop env_down act_fail 2 0 None (dstate0 1))))"
    by simp
  from h1 h2 h3 h4 h5 rf e1 e2 show ?thesis
    by blast
qed

text \<open>
  The statement that a failed recreation is returned at once, without another call,
  fails with one retry, a call that always fails with \<open>boom\<close> and a server that is
  offline: \<open>assess\<close> gets \<open>ErrDisconnected\<close> from the blocking \<open>recover\<close> and returns it
  together with \<open>reattempt = true\<close>, so the loop of \<open>attempt\<close> invokes the call a second
  time (\<open>EvAction\<close> after \<open>EvNewReporter\<close>) and returns the error of that second call.
\<close>

theorem C2_counterexample:
  "assess env_down 0 7 (Some (OtherError ''boom''))
       ((dstate0 1)\<lparr>world := 1, trace := [EvAction 7]\<rparr>)
     = ((True, Some ErrDisconnected),
        \<lparr>obj = \<lparr>dr_server = ''srv'', dr_interval = 0, dr_attempts = 2, dr_r = 7,
                dr_lastRecovery = 2\<rparr>,
         world = 2, trace = [EvAction 7, EvRecover 7, EvNewReporter ''srv'' 1 2]\<rparr>)
   \<and> attempt env_down act_fail (dstate0 1)
     = (Some (OtherError ''boom''),
        \<lparr>obj = \<lparr>dr_server = ''srv'', dr_interval = 0, dr_attempts = 2, dr_r = 7,
                dr_lastRecovery = 2\<rparr>,
         world = 3,
         trace = [EvAction 7, EvRecover 7, EvNewReporter ''srv'' 1 2, EvAction 7,
                  EvGoRecover 7]\<rparr>)
   \<and> fst (attempt env_down act_fail (dstate0 1)) \<noteq> Some ErrDisconnected
   \<and> count_ev is_action (trace (snd (attempt env_down act_fail (dstate0 1)))) = 2"
  by (simp add: attempt_def attempt_loop.simps assess_def recover_def time_Sub_def
      env_down_def act_fail_def dstate0_def word_le_nat_alt word_less_nat_alt)

text \<open>
  C3 (as amended). For a durable reporter configured with \<open>retries = R\<close>, where \<open>R + 1\<close>
  does not overflow \<open>uint\<close>, a call whose action always fails with an error other than
  \<open>ErrClosed\<close> invokes the action exactly \<open>R + 1\<close> times and then returns such an error;
  over those attempts it enters exactly \<open>R\<close> blocking recoveries, which construct at most
  \<open>R\<close> reporters, and on the last attempt it spawns exactly one more recovery that runs
  in the background.
\<close>

theorem C3_attempts_and_recoveries:
  assumes "\<And>rep w. \<exists>e w'. action rep w = (Some e, w') \<and> e \<noteq> ErrClosed"
    and "dr_attempts (obj s) = retries + 1" and "retries + 1 \<noteq> 0"
  shows "\<exists>e s'. attempt E action s = (Some e, s') \<and> e \<noteq> ErrClosed
      \<and> count_ev is_action (trace s') = count_ev is_action (trace s) + (unat retries + 1)
      \<and> count_ev is_recover (trace s') = count_ev is_recover (trace s) + unat retries
      \<and> count_ev is_go_recover (trace s') = count_ev is_go_recover (trace s) + 1
      \<and> count_ev is_new_reporter (trace s') \<le> count_ev is_new_reporter (trace s) + unat retries"
proof -
  let ?n = "retries + 1"
  from assms(3) have un: "unat ?n = Suc (unat retries)"
    by (simp add: unatSuc add.commute)
  then have pos: "0 < ?n"
    by (simp add: word_less_nat_alt)
  from attempt_loop_always_fails [where action = action and n = ?n and i = 0 and s = s
      and E = E and err = None, OF assms(1) refl pos assms(2)]
  show ?thesis
    unfolding attempt_def assms(2) using un by simp
qed

theorem C3_attempts_and_recoveries_witness:
  "(\<forall>rep w. \<exists>e w'. act_fail rep w = (Some e, w') \<and> e \<noteq> ErrClosed)
   \<and> dr_attempts (obj (dstate0 2)) = 2 + 1 \<and> (2 :: 64 word) + 1 \<noteq> 0
   \<and> (\<exists>e s'. attempt env_down act_fail (dstate0 2) = (Some e, s') \<and> e \<noteq> ErrClosed
      \<and> count_ev is_action (trace s') = 3
      \<and> count_ev is_recover (trace s') = 2
      \<and> count_ev is_go_recover (trace s') = 1
      \<and> count_ev is_new_reporter (trace s') \<le> 2)"
proof -
  have h1: "\<And>rep w. \<exists>e w'. act_fail rep w = (Some e, w') \<and> e \<noteq> ErrClosed"
    by (simp add: act_fail_def)
  have h2: "dr_attempts (obj (dstate0 2)) = 2 + 1"
    by (simp add: dstate0_def)
  have h3: "(2 :: 64 word) + 1 \<noteq> 0"
    by simp
  have u: "unat (2 :: 64 word) = 2"
    by simp
  have t0: "trace (dstate0 2) = []"
    by (simp add: dstate0_def)
  note th = C3_attempts_and_recoveries [where action = act_fail and s = "dstate0 2"
      and E = env_down, OF h1 h2 h3, unfolded u t0 count_ev_Nil]
  from th obtain e s' where res: "attempt env_down act_fail (dstate0 2) = (Some e, s')"
      "e \<noteq> ErrClosed"
    and c: "count_ev is_action (trace s') = 0 + (2 + 1)"
      "count_ev is_recover (trace s') = 0 + 2"
      "count_ev is_go_recover (trace s') = 0 + 1"
      "count_ev is_new_reporter (trace s') \<le> 0 + 2"
    by blast
  from c have "count_ev is_action (trace s') = 3" "count_ev is_recover (trace s') = 2"
    "count_ev is_go_recover (trace s') = 1" "count_ev is_new_reporter (trace s') \<le> 2"
    by simp_all
  with res h1 h2 h3 show ?thesis
    by blast
qed

text \<open>
  The bound of \<open>R\<close> on all recreation attempts fails with \<open>R = 0\<close>: the action is
  invoked once, and that one attempt, being the last, spawns a recovery, so one
  recreation attempt is triggered where the bound allows none; when the spawned recovery
  runs it does construct a reporter. It also fails where \<open>R + 1\<close> wraps around to zero attempts: the action is
  never invoked and no error is returned.
\<close>

theorem C3_counterexample:
  "\<not> (count_ev is_action (trace (snd (attempt env_down act_fail (dstate0 0)))) = unat (0 :: 64 word) + 1
      \<and> count_ev is_recover (trace (snd (attempt env_down act_fail (dstate0 0))))
          + count_ev is_go_recover (trace (snd (attempt env_down act_fail (dstate0 0))))
          \<le> unat (0 :: 64 word))
   \<and> trace (snd (attempt env_down act_fail (dstate0 0))) = [EvAction 7, EvGoRecover 7]
   \<and> trace (snd (recover env_down 7 (snd (attempt env_down act_fail (dstate0 0)))))
        = [EvAction 7, EvGoRecover 7, EvNewReporter ''srv'' 1 2]
   \<and> attempt env_down act_fail (dstate0 (- 1)) = (None, dstate0 (- 1))"
  by (simp add: attempt_def attempt_loop.simps assess_def recover_def time_Sub_def
      env_down_def act_fail_def dstate0_def word_le_nat_alt word_less_nat_alt)

text \<open>
  C7. On any attempt of a capability call, if the underlying call returns \<open>ErrClosed\<close>,
  \<open>attempt\<close> returns \<open>ErrClosed\<close> at once: the trace gains the failing call and nothing
  else (no further call, no blocking recovery, no spawned recovery, no construction),
  and the durable reporter is unchanged. \<open>assess\<close> itself answers \<open>ErrClosed\<close> with
  \<open>reattempt = false\<close> and leaves the state as it is.
\<close>

theorem C7_ErrClosed_returned_immediately:
  assumes "i < n" and "action (dr_r (obj s)) (world s) = (Some ErrClosed, w')"
  shows "attempt_loop E action n i err s
           = (Some ErrClosed, s\<lparr>world := w', trace := trace s @ [EvAction (dr_r (obj s))]\<rparr>)
         \<and> assess E i rep (Some ErrClosed) s = ((False, Some ErrClosed), s)"
proof -
  let ?s1 = "s\<lparr>world := w', trace := trace s @ [EvAction (dr_r (obj s))]\<rparr>"
  have as: "\<And>rep' t. assess E i rep' (Some ErrClosed) t = ((False, Some ErrClosed), t)"
    by (simp add: assess_def)
  from attempt_loop_unfold [where action = action and s = s, OF assms(1) assms(2) as]
  have "attempt_loop E action n i err s = (Some ErrClosed, ?s1)"
    by simp
  with as show ?thesis by simp
qed

theorem C7_ErrClosed_returned_immediately_witness:
  "(0 :: 64 word) < 3 \<and> act_closed (dr_r (obj (dstate0 2))) (world (dstate0 2)) = (Some ErrClosed, 1)
   \<and> attempt env_up act_closed (dstate0 2)
        = (Some ErrClosed, (dstate0 2)\<lparr>world := 1, trace := [EvAction 7]\<rparr>)"
proof -
  have h1: "(0 :: 64 word) < 3"
    by simp
  have h2: "act_closed (dr_r (obj (dstate0 2))) (world (dstate0 2)) = (Some ErrClosed, 1)"
    by (simp add: act_closed_def dstate0_def)
  from C7_ErrClosed_returned_immediately [where action = act_closed and s = "dstate0 2"
      and E = env_up and err = None, OF h1 h2]
  show ?thesis
    using h1 h2 by (simp add: attempt_def dstate0_def)
qed

subsection \<open>Rate limit of recreations\<close>

lemma constructions_append [simp]:
  "constructions (xs @ ys) = constructions xs @ constructions ys"
  by (induction xs rule: constructions.induct) simp_all

lemma spaced_snoc:
  "spaced I (cs @ [x]) = (spaced I cs \<and> list_all (\<lambda>c. I \<le> fst x - snd c) cs)"
  by (induction cs) auto

lemma spaced_nth:
  "spaced I cs \<Longrightarrow> i < j \<Longrightarrow> j < length cs \<Longrightarrow> I \<le> fst (cs ! j) - snd (cs ! i)"
proof (induction cs arbitrary: i j)
  case Nil
  then show ?case by simp
next
  case (Cons c cs)
  show ?case
  proof (cases i)
    case 0
    with Cons.prems obtain j' where j: "j = Suc j'" "j' < length cs"
      by (cases j) auto
    from Cons.prems(1) have "list_all (\<lambda>d. I \<le> fst d - snd c) cs" by simp
    with j have "I \<le> fst (cs ! j') - snd c" by (simp add: list_all_length)
    with 0 j show ?thesis by simp
  next
    case (Suc i')
    with Cons.prems obtain j' where j: "j = Suc j'" "j' < length cs" "i' < j'"
      by (cases j) auto
    from Cons.prems(1) have "spaced I cs" by simp
    from Cons.IH [OF this j(3) j(2)] Suc j show ?thesis by simp
  qed
qed

lemma time_Sub_le: "u \<le> t \<Longrightarrow> time_Sub t u \<le> t - u"
  by (simp add: time_Sub_def)

text \<open>A recovery entered before the interval has elapsed changes nothing.\<close>

lemma recover_skips:
  "time_Sub (time_Now E (world s)) (dr_lastRecovery (obj s)) < sint (dr_interval (obj s))
     \<Longrightarrow> recover E rep s = (None, s)"
  by (simp add: recover_def Let_def)

text \<open>
  A recovery that calls \<open>NewReporter\<close> records the instant after the call, whether the
  call succeeded or failed.
\<close>

lemma recover_records:
  "trace (snd (recover E rep s)) \<noteq> trace s
     \<Longrightarrow> dr_lastRecovery (obj (snd (recover E rep s))) = time_Now E (world (snd (recover E rep s)))"
  by (simp add: recover_def Let_def split: prod.splits sum.splits if_splits)

lemma recover_rate_inv:
  assumes mono: "clock_monotone E" and inv: "rate_inv E s"
  shows "rate_inv E (snd (recover E rep s))"
proof (cases "dr_r (obj s) \<noteq> rep
    \<or> time_Sub (time_Now E (world s)) (dr_lastRecovery (obj s)) < sint (dr_interval (obj s))")
  case True
  then have "snd (recover E rep s) = s" by (auto simp add: recover_def Let_def)
  with inv show ?thesis by simp
next
  case False
  obtain res w' where nr: "NewReporter E (dr_server (obj s)) (world s) = (res, w')"
    by (cases "NewReporter E (dr_server (obj s)) (world s)")
  let ?t0 = "time_Now E (world s)" and ?t1 = "time_Now E w'"
  let ?last = "dr_lastRecovery (obj s)" and ?I = "sint (dr_interval (obj s))"
  from mono nr have t01: "?t0 \<le> ?t1"
    unfolding clock_monotone_def by (metis snd_conv)
  from inv have last: "?last \<le> ?t0"
    and ends: "list_all (\<lambda>c. snd c \<le> ?last) (constructions (trace s))"
    and sp: "spaced ?I (constructions (trace s))"
    by (simp_all add: rate_inv_def)
  from False have "?I \<le> time_Sub ?t0 ?last" by simp
  with time_Sub_le [OF last] have gap: "?I \<le> ?t0 - ?last" by simp
  have ends': "list_all (\<lambda>c. snd c \<le> ?t1) (constructions (trace s))"
    using ends last t01 by (auto simp add: list_all_iff)
  have gaps: "list_all (\<lambda>c. ?I \<le> ?t0 - snd c) (constructions (trace s))"
    using ends gap by (auto simp add: list_all_iff)
  have tr: "constructions (trace (snd (recover E rep s))) = constructions (trace s) @ [(?t0, ?t1)]"
    and lr: "dr_lastRecovery (obj (snd (recover E rep s))) = ?t1"
    and wd: "world (snd (recover E rep s)) = w'"
    using False nr by (auto simp add: recover_def Let_def split: sum.splits)
  show ?thesis
    unfolding rate_inv_def tr lr wd recover_interval
    using ends' gaps sp by (simp add: spaced_snoc)
qed

lemma recover_all_rate_inv:
  assumes mono: "clock_monotone E"
  shows "rate_inv E s \<Longrightarrow> elapses E reqs \<Longrightarrow> rate_inv E (recover_all E reqs s)"
proof (induction reqs arbitrary: s)
  case Nil
  then show ?case by simp
next
  case (Cons q reqs)
  obtain elapse rep where q: "q = (elapse, rep)" by (cases q)
  from Cons.prems(2) q have el: "\<And>w. time_Now E w \<le> time_Now E (elapse w)"
    and rest: "elapses E reqs"
    by (simp_all add: elapses_def)
  have "rate_inv E (s\<lparr>world := elapse (world s)\<rparr>)"
    using Cons.prems(1) el [of "world s"] by (simp add: rate_inv_def)
  then have "rate_inv E (snd (recover E rep (s\<lparr>world := elapse (world s)\<rparr>)))"
    by (rule recover_rate_inv [OF mono])
  from Cons.IH [OF this rest] q show ?case by simp
qed

lemma NewDurableReporter_rate_inv:
  assumes "clock_monotone E" and "NewDurableReporter E srv ival retries w = Inr s"
  shows "rate_inv E s"
  using assms
  by (auto simp add: NewDurableReporter_def rate_inv_def clock_monotone_def
      split: prod.splits sum.splits)

lemma recover_all_interval:
  "dr_interval (obj (recover_all E reqs s)) = dr_interval (obj s)"
  by (induction reqs arbitrary: s) (auto simp add: recover_interval)

text \<open>
  C6. Take a durable reporter made by \<open>NewDurableReporter\<close> with minimum interval \<open>ival\<close>
  and any sequence of recoveries entered by any callers, blocking or spawned, with any
  snapshots, while the monotonic clock advances in any way. Then of any two
  constructions of an underlying reporter (the first one included, successful or
  failed), the later begins at least \<open>ival\<close> after the earlier has ended. The two
  mechanisms: a recovery that constructed records the instant after the construction
  whatever its result, and a recovery entered before the interval has elapsed returns
  \<open>nil\<close> and leaves the state as it was.
\<close>

theorem C6_recreations_rate_limited:
  assumes "clock_monotone E" and "elapses E reqs"
    and "NewDurableReporter E srv ival retries w = Inr s0"
    and "i < j" and "j < length (constructions (trace (recover_all E reqs s0)))"
  shows "sint ival \<le> fst (constructions (trace (recover_all E reqs s0)) ! j)
                      - snd (constructions (trace (recover_all E reqs s0)) ! i)
    \<and> (trace (snd (recover E rep s)) \<noteq> trace s \<longrightarrow>
         dr_lastRecovery (obj (snd (recover E rep s)))
           = time_Now E (world (snd (recover E rep s))))
    \<and> (time_Sub (time_Now E (world s)) (dr_lastRecovery (obj s)) < sint (dr_interval (obj s))
         \<longrightarrow> recover E rep s = (None, s))"
proof -
  have "rate_inv E s0"
    using assms(1,3) by (rule NewDurableReporter_rate_inv)
  then have "rate_inv E (recover_all E reqs s0)"
    using assms(2) by (rule recover_all_rate_inv [OF assms(1)])
  moreover have "dr_interval (obj s0) = ival"
    using assms(3) by (auto simp add: NewDurableReporter_def split: prod.splits sum.splits)
  ultimately have "spaced (sint ival) (constructions (trace (recover_all E reqs s0)))"
    by (simp add: rate_inv_def recover_all_interval)
  from spaced_nth [OF this assms(4,5)] show ?thesis
    using recover_records [of E rep s] recover_skips [of E s rep] by blast
qed

theorem C6_recreations_rate_limited_witness:
  "clock_monotone env_up \<and> elapses env_up reqs0
   \<and> NewDurableReporter env_up ''srv'' 5 1 0 = Inr dstate1
   \<and> constructions (trace (recover_all env_up reqs0 dstate1)) = [(0, 3), (13, 16), (27, 30)]
   \<and> sint (5 :: 64 word) \<le> 27 - 3"
proof -
  have h1: "clock_monotone env_up"
    by (simp add: clock_monotone_def env_up_def)
  have h2: "elapses env_up reqs0"
    by (simp add: elapses_def reqs0_def env_up_def)
  have h3: "NewDurableReporter env_up ''srv'' 5 1 0 = Inr dstate1"
    by (simp add: NewDurableReporter_def env_up_def dstate1_def)
  have cs: "constructions (trace (recover_all env_up reqs0 dstate1)) = [(0, 3), (13, 16), (27, 30)]"
    by (simp add: reqs0_def dstate1_def recover_def time_Sub_def env_up_def)
  have h4: "(0 :: nat) < 2"
    and h5: "2 < length (constructions (trace (recover_all env_up reqs0 dstate1)))"
    by (simp_all add: cs)
  from C6_recreations_rate_limited [OF h1 h2 h3 h4 h5] have "sint (5 :: 64 word) \<le> 27 - 3"
    by (simp add: cs)
  with h1 h2 h3 cs show ?thesis
    by blast
qed

section \<open>Properties of the client\<close>

lemma letter_pairs_lower:
  "list_all (\<lambda>(c, d). lower_byte c = d \<and> lower_byte d = d) letter_pairs"
  by code_simp

lemma lower_byte_letter_pairs:
  "(c, d) \<in> set letter_pairs \<Longrightarrow> lower_byte c = d \<and> lower_byte d = d"
  using letter_pairs_lower by (auto simp add: list_all_iff)

lemma letter_pairs_below_128:
  "list_all (\<lambda>(c, d). of_char c < (128 :: nat) \<and> of_char d < (128 :: nat)) letter_pairs"
  by code_simp

lemma cenv0_simps:
  "NewReporter cenv0 = (\<lambda>srv w. (if srv = ''down'' then Inl ErrDisconnected else Inr w, w + 1))"
  "time_Now cenv0 = (\<lambda>w. int w)"
  "NewLimiter cenv0 = (\<lambda>r n w. (if n = 0 then Inl ErrZeroWorkers else Inr w, w + 1))"
  "NewCacher cenv0 = (\<lambda>r d w. (w, w + 1))"
  "rep_Vector cenv0 = (\<lambda>r g w. (if g = 0 then Inl (OtherError ''no vector'') else Inr w, w + 1))"
  "rep_Backlog cenv0
     = (\<lambda>r v w. (if r = 1 then Inl (OtherError ''no backlog'') else Inr [int v], w + 1))"
  "rep_Close cenv0 = (\<lambda>r w. w + 1)"
  "vec_Close cenv0 = (\<lambda>v w. w + 1)"
  by (simp_all add: cenv0_def)

lemma ToLower_ascii: "is_ascii s \<Longrightarrow> ToLower E s = map lower_byte s"
  by (simp add: ToLower_def)

lemma same_letter_lower_byte: "same_letter c d \<Longrightarrow> lower_byte c = lower_byte d"
  unfolding same_letter_def using lower_byte_letter_pairs by metis

lemma same_letter_below_128:
  "same_letter c d \<Longrightarrow> (of_char c < (128 :: nat)) = (of_char d < (128 :: nat))"
  unfolding same_letter_def using letter_pairs_below_128 by (auto simp add: list_all_iff)

lemma differ_only_by_case_is_ascii: "differ_only_by_case a b \<Longrightarrow> is_ascii a = is_ascii b"
  unfolding differ_only_by_case_def is_ascii_def
  by (induction a b rule: list_all2_induct) (simp_all add: same_letter_below_128)

lemma differ_only_by_case_ToLower:
  assumes "is_ascii a" and "differ_only_by_case a b"
  shows "ToLower E a = ToLower E b"
proof -
  from assms(2) have "map lower_byte a = map lower_byte b"
    unfolding differ_only_by_case_def
    by (induction a b rule: list_all2_induct) (simp_all add: same_letter_lower_byte)
  with assms differ_only_by_case_is_ascii [OF assms(2)] show ?thesis
    by (simp add: ToLower_def)
qed

lemma map_of_map_update: "map_of (map_update k v kvs) = (map_of kvs)(k \<mapsto> v)"
  by (induction kvs) auto

lemma server_then_found:
  assumes "server E a s = (Inr r, s')"
  shows "map_of (servers (obj s')) (ToLower E a) = Some r"
proof (cases "map_of (servers (obj s)) (ToLower E a)")
  case (Some r')
  with assms show ?thesis by (simp add: server_def)
next
  case None
  with assms show ?thesis
    by (auto simp add: server_def server_insert_def map_of_map_update Let_def
        split: prod.splits sum.splits)
qed

text \<open>
  With one goroutine at a time, \<open>server\<close> treats two ASCII names that differ only by
  letter case alike, and the second resolution finds the reporter of the first.
\<close>

lemma server_case_insensitive:
  assumes "is_ascii a" and "differ_only_by_case a b"
  shows "server E a s = server E b s"
    and "server E a s = (Inr r, s') \<Longrightarrow> server E b s' = (Inr r, s')"
proof -
  from assms have low: "ToLower E a = ToLower E b"
    by (rule differ_only_by_case_ToLower)
  then show "server E a s = server E b s"
    by (simp add: server_def)
  show "server E b s' = (Inr r, s')" if "server E a s = (Inr r, s')"
    using server_then_found [OF that] low by (simp add: server_def)
qed

lemma create_no_backlog:
  "count_ev is_backlog (trace (snd (create E fqdn s))) = count_ev is_backlog (trace s)"
  by (simp add: create_def Let_def split: prod.splits sum.splits)

lemma server_no_backlog:
  "count_ev is_backlog (trace (snd (server E a s))) = count_ev is_backlog (trace s)"
proof (cases "map_of (servers (obj s)) (ToLower E a)")
  case (Some r)
  then show ?thesis by (simp add: server_def)
next
  case None
  obtain res s' where cr: "create E (ToLower E a) s = (res, s')"
    by (cases "create E (ToLower E a) s")
  with create_no_backlog [of E "ToLower E a" s]
  have "count_ev is_backlog (trace s') = count_ev is_backlog (trace s)"
    by simp
  with None cr show ?thesis
    by (cases res) (simp_all add: server_def server_insert_def)
qed

text \<open>
  C9. \<open>Backlog from to grp\<close> resolves \<open>from\<close>, then \<open>to\<close>; an error of either resolution
  is returned as it is, and so is an error of the vector fetch on the destination, in
  each case without any backlog computation and without closing a vector. When the
  fetch yields a vector, the source reporter computes the backlog against it, the vector
  is closed after that, and the result of the computation, success or failure, is
  returned as it is.
\<close>

theorem C9_Backlog:
  "(server E from s = (Inl e, s1) \<longrightarrow>
      Backlog E from to g s = (Inl e, s1)
      \<and> count_ev is_backlog (trace s1) = count_ev is_backlog (trace s))
   \<and> (server E from s = (Inr f, s1) \<and> server E to s1 = (Inl e, s2) \<longrightarrow>
      Backlog E from to g s = (Inl e, s2)
      \<and> count_ev is_backlog (trace s2) = count_ev is_backlog (trace s))
   \<and> (server E from s = (Inr f, s1) \<and> server E to s1 = (Inr t, s2)
        \<and> rep_Vector E t g (world s2) = (Inl e, w3) \<longrightarrow>
      Backlog E from to g s = (Inl e, s2\<lparr>world := w3, trace := trace s2 @ [EvVector t g]\<rparr>)
      \<and> count_ev is_backlog (trace s2) = count_ev is_backlog (trace s))
   \<and> (server E from s = (Inr f, s1) \<and> server E to s1 = (Inr t, s2)
        \<and> rep_Vector E t g (world s2) = (Inr v, w3) \<and> rep_Backlog E f v w3 = (res, w4) \<longrightarrow>
      Backlog E from to g s
        = (res, s2\<lparr>world := vec_Close E v w4,
                    trace := trace s2 @ [EvVector t g, EvBacklog f v, EvVectorClose v]\<rparr>))"
proof -
  have n1: "server E from s = (x, s1) \<Longrightarrow>
      count_ev is_backlog (trace s1) = count_ev is_backlog (trace s)" for x
    using server_no_backlog [of E "from" s] by simp
  have n2: "server E to s1 = (y, s2) \<Longrightarrow>
      count_ev is_backlog (trace s2) = count_ev is_backlog (trace s1)" for y
    using server_no_backlog [of E to s1] by simp
  show ?thesis
    using n1 n2 by (auto simp add: Backlog_def)
qed

theorem C9_Backlog_witness:
  "Backlog cenv0 ''down'' ''b'' 5 cstate0
     = (Inl ErrDisconnected, cstate0\<lparr>world := 1, trace := [EvNewReporter ''down'' 0 1]\<rparr>)
   \<and> Backlog cenv0 ''a'' ''b'' 0 cstate0
     = (Inl (OtherError ''no vector''),
        \<lparr>obj = NewClient\<lparr>servers := [(''a'', 1), (''b'', 3)]\<rparr>, world = 5,
         trace = [EvNewReporter ''a'' 0 1, EvNewReporter ''b'' 2 3, EvVector 3 0]\<rparr>)
   \<and> Backlog cenv0 ''a'' ''b'' 5 cstate0
     = (Inl (OtherError ''no backlog''),
        \<lparr>obj = NewClient\<lparr>servers := [(''a'', 1), (''b'', 3)]\<rparr>, world = 7,
         trace = [EvNewReporter ''a'' 0 1, EvNewReporter ''b'' 2 3, EvVector 3 5,
                  EvBacklog 1 4, EvVectorClose 4]\<rparr>)
   \<and> Backlog cenv0 ''b'' ''a'' 5 (cstate0\<lparr>world := 2\<rparr>)
     = (Inr [6],
        \<lparr>obj = NewClient\<lparr>servers := [(''b'', 3), (''a'', 5)]\<rparr>, world = 9,
         trace = [EvNewReporter ''b'' 2 3, EvNewReporter ''a'' 4 5, EvVector 5 5,
                  EvBacklog 3 6, EvVectorClose 6]\<rparr>)"
proof -
  have "is_ascii ''a''" "is_ascii ''b''" "is_ascii ''down''"
    by code_simp+
  moreover have "map lower_byte ''a'' = ''a''" "map lower_byte ''b'' = ''b''"
    "map lower_byte ''down'' = ''down''"
    by code_simp+
  ultimately have low: "ToLower cenv0 ''a'' = ''a''" "ToLower cenv0 ''b'' = ''b''"
    "ToLower cenv0 ''down'' = ''down''"
    by (simp_all only: ToLower_ascii)
  let ?sa = "\<lparr>obj = NewClient\<lparr>servers := [(''a'', 1)]\<rparr>, world = 2,
              trace = [EvNewReporter ''a'' 0 1]\<rparr>"
  let ?sab = "\<lparr>obj = NewClient\<lparr>servers := [(''a'', 1), (''b'', 3)]\<rparr>, world = 4 :: nat,
               trace = [EvNewReporter ''a'' 0 1, EvNewReporter ''b'' 2 3]\<rparr>"
  let ?sb = "\<lparr>obj = NewClient\<lparr>servers := [(''b'', 3)]\<rparr>, world = 4 :: nat,
              trace = [EvNewReporter ''b'' 2 3]\<rparr>"
  let ?sba = "\<lparr>obj = NewClient\<lparr>servers := [(''b'', 3), (''a'', 5)]\<rparr>, world = 6 :: nat,
               trace = [EvNewReporter ''b'' 2 3, EvNewReporter ''a'' 4 5]\<rparr>"
  have d: "server cenv0 ''down'' cstate0
      = (Inl ErrDisconnected, cstate0\<lparr>world := 1, trace := [EvNewReporter ''down'' 0 1]\<rparr>)"
    by (simp add: server_def server_insert_def create_def cenv0_simps cstate0_def NewClient_def
        low Let_def)
  have a: "server cenv0 ''a'' cstate0 = (Inr 1, ?sa)"
    by (simp add: server_def server_insert_def create_def cenv0_simps cstate0_def NewClient_def
        low Let_def)
  have ab: "server cenv0 ''b'' ?sa = (Inr 3, ?sab)"
    by (simp add: server_def server_insert_def create_def cenv0_simps NewClient_def low Let_def)
  have b: "server cenv0 ''b'' (cstate0\<lparr>world := 2\<rparr>) = (Inr 3, ?sb)"
    by (simp add: server_def server_insert_def create_def cenv0_simps cstate0_def NewClient_def
        low Let_def)
  have ba: "server cenv0 ''a'' ?sb = (Inr 5, ?sba)"
    by (simp add: server_def server_insert_def create_def cenv0_simps NewClient_def low Let_def)
  have v0: "rep_Vector cenv0 3 0 (world ?sab) = (Inl (OtherError ''no vector''), 5)"
    by (simp add: cenv0_simps)
  have v5: "rep_Vector cenv0 3 5 (world ?sab) = (Inr 4, 5)"
    by (simp add: cenv0_simps)
  have b1: "rep_Backlog cenv0 1 4 5 = (Inl (OtherError ''no backlog''), 6)"
    by (simp add: cenv0_simps)
  have v5': "rep_Vector cenv0 5 5 (world ?sba) = (Inr 6, 7)"
    by (simp add: cenv0_simps)
  have b3: "rep_Backlog cenv0 3 6 7 = (Inr [6], 8)"
    by (simp add: cenv0_simps)
  have r1: "Backlog cenv0 ''down'' ''b'' 5 cstate0
     = (Inl ErrDisconnected, cstate0\<lparr>world := 1, trace := [EvNewReporter ''down'' 0 1]\<rparr>)"
    using C9_Backlog [of cenv0 "''down''" cstate0 ErrDisconnected
        "cstate0\<lparr>world := 1, trace := [EvNewReporter ''down'' 0 1]\<rparr>" "''b''" 5] d
    by blast
  have r2: "Backlog cenv0 ''a'' ''b'' 0 cstate0
     = (Inl (OtherError ''no vector''), ?sab\<lparr>world := 5, trace := trace ?sab @ [EvVector 3 0]\<rparr>)"
    using C9_Backlog [of cenv0 "''a''" cstate0 "OtherError ''no vector''" ?sa "''b''" 0 1 ?sab 3 5]
      a ab v0
    by blast
  have r3: "Backlog cenv0 ''a'' ''b'' 5 cstate0
     = (Inl (OtherError ''no backlog''),
        ?sab\<lparr>world := vec_Close cenv0 4 6,
              trace := trace ?sab @ [EvVector 3 5, EvBacklog 1 4, EvVectorClose 4]\<rparr>)"
    using C9_Backlog [of cenv0 "''a''" cstate0 ErrClosed ?sa "''b''" 5 1 ?sab 3 5 4
        "Inl (OtherError ''no backlog'')" 6]
      a ab v5 b1
    by blast
  have r4: "Backlog cenv0 ''b'' ''a'' 5 (cstate0\<lparr>world := 2\<rparr>)
     = (Inr [6],
        ?sba\<lparr>world := vec_Close cenv0 6 8,
              trace := trace ?sba @ [EvVector 5 5, EvBacklog 3 6, EvVectorClose 6]\<rparr>)"
    using C9_Backlog [of cenv0 "''b''" "cstate0\<lparr>world := 2\<rparr>" ErrClosed ?sb "''a''" 5 3 ?sba 5 7 6
        "Inr [6]" 8]
      b ba v5' b3
    by blast
  have vc: "vec_Close cenv0 4 6 = 7" "vec_Close cenv0 6 8 = 9"
    by (simp_all add: cenv0_simps)
  show ?thesis
    unfolding r1 r2 r3 r4 vc by simp
qed

section \<open>Properties of goroutines on one client\<close>

text \<open>
  C1. The specification has at most one session constructed for every server identity,
  even under concurrent first use, the map being looked up again under the exclusive
  lock. \<open>server\<close> does not look again. Two goroutines resolve the same server on an
  empty client; both take the read lock, miss and release it before either takes the
  exclusive lock. Each then constructs a reporter for \<open>srva\<close> and stores it: two
  constructions, the callers hold two different reporters (1 and 3), and reporter 1 is
  no longer in the map.
\<close>

theorem C1_two_sessions_for_one_server:
  "run cenv0 [0, 0, 1, 1, 0, 0, 1, 1] (init cenv0 cstate0 [CallServer ''SrvA'', CallServer ''srva''])
     = \<lparr>cst = \<lparr>obj = NewClient\<lparr>servers := [(''srva'', 3)]\<rparr>, world = 4,
                trace = [EvNewReporter ''srva'' 0 1, EvNewReporter ''srva'' 2 3]\<rparr>,
        mtx = \<lparr>writer = False, readers = 0\<rparr>,
        threads = [Srv_Return (Inr 1), Srv_Return (Inr 3)]\<rparr>
   \<and> count_ev (is_construction_of ''srva'')
        (trace (cst (run cenv0 [0, 0, 1, 1, 0, 0, 1, 1]
           (init cenv0 cstate0 [CallServer ''SrvA'', CallServer ''srva'']))))
     = 2"
proof -
  have "is_ascii ''SrvA''" "is_ascii ''srva''"
    by code_simp+
  moreover have "map lower_byte ''SrvA'' = ''srva''" "map lower_byte ''srva'' = ''srva''"
    by code_simp+
  ultimately have low: "ToLower cenv0 ''SrvA'' = ''srva''" "ToLower cenv0 ''srva'' = ''srva''"
    by (simp_all only: ToLower_ascii)
  have r: "run cenv0 [0, 0, 1, 1, 0, 0, 1, 1] (init cenv0 cstate0 [CallServer ''SrvA'', CallServer ''srva''])
     = \<lparr>cst = \<lparr>obj = NewClient\<lparr>servers := [(''srva'', 3)]\<rparr>, world = 4,
                trace = [EvNewReporter ''srva'' 0 1, EvNewReporter ''srva'' 2 3]\<rparr>,
        mtx = \<lparr>writer = False, readers = 0\<rparr>,
        threads = [Srv_Return (Inr 1), Srv_Return (Inr 3)]\<rparr>"
    by (simp add: init_def step_def low RLock_def RUnlock_def Lock_def Unlock_def
        server_insert_def create_def cenv0_simps cstate0_def NewClient_def Let_def)
  show ?thesis
    unfolding r by simp
qed

text \<open>
  C8. The specification has every operation of the client resolve two names that
  differ only by letter case to the same owned session. \<open>server\<close>, with which \<open>Backlog\<close>,
  \<open>Vector\<close> and \<open>Report\<close> begin, does put the name in lower case before it reads or
  writes the map, and one goroutine at a time gets the same reporter for both names
  (\<open>server_case_insensitive\<close>). It does not look the name up again under the exclusive
  lock, though. Two goroutines resolve \<open>SrvA.Example.COM\<close> and \<open>srva.example.com\<close> on an
  empty client, both hold the read lock at once and miss: the first caller is given
  reporter 3 and the second reporter 1, two sessions for one server, of which the map
  owns only reporter 3.
\<close>

theorem C8_case_variants_get_two_sessions:
  "differ_only_by_case ''SrvA.Example.COM'' ''srva.example.com''
   \<and> run cenv0 [1, 0, 1, 0, 1, 1, 0, 0]
         (init cenv0 cstate0 [CallServer ''SrvA.Example.COM'', CallServer ''srva.example.com''])
     = \<lparr>cst = \<lparr>obj = NewClient\<lparr>servers := [(''srva.example.com'', 3)]\<rparr>, world = 4,
                trace = [EvNewReporter ''srva.example.com'' 0 1,
                         EvNewReporter ''srva.example.com'' 2 3]\<rparr>,
        mtx = \<lparr>writer = False, readers = 0\<rparr>,
        threads = [Srv_Return (Inr 3), Srv_Return (Inr 1)]\<rparr>"
proof -
  have h: "differ_only_by_case ''SrvA.Example.COM'' ''srva.example.com''"
    by code_simp
  have "is_ascii ''SrvA.Example.COM''" "is_ascii ''srva.example.com''"
    by code_simp+
  moreover have "map lower_byte ''SrvA.Example.COM'' = ''srva.example.com''"
    "map lower_byte ''srva.example.com'' = ''srva.example.com''"
    by code_simp+
  ultimately have low: "ToLower cenv0 ''SrvA.Example.COM'' = ''srva.example.com''"
    "ToLower cenv0 ''srva.example.com'' = ''srva.example.com''"
    by (simp_all only: ToLower_ascii)
  have "run cenv0 [1, 0, 1, 0, 1, 1, 0, 0]
         (init cenv0 cstate0 [CallServer ''SrvA.Example.COM'', CallServer ''srva.example.com''])
     = \<lparr>cst = \<lparr>obj = NewClient\<lparr>servers := [(''srva.example.com'', 3)]\<rparr>, world = 4,
                trace = [EvNewReporter ''srva.example.com'' 0 1,
                         EvNewReporter ''srva.example.com'' 2 3]\<rparr>,
        mtx = \<lparr>writer = False, readers = 0\<rparr>,
        threads = [Srv_Return (Inr 3), Srv_Return (Inr 1)]\<rparr>"
    by (simp add: init_def step_def low RLock_def RUnlock_def Lock_def Unlock_def
        server_insert_def create_def cenv0_simps cstate0_def NewClient_def Let_def)
  with h show ?thesis
    by simp
qed

subsection \<open>The mutex after Close\<close>

lemma count_nth:
  "i < length xs \<Longrightarrow>
     length (filter P xs)
       = length (filter P (take i xs)) + (if P (xs ! i) then 1 else 0)
         + length (filter P (drop (Suc i) xs))"
  by (subst id_take_nth_drop [of i xs]) simp_all

lemma count_update:
  "i < length xs \<Longrightarrow>
     length (filter P (xs[i := y]))
       = length (filter P (take i xs)) + (if P y then 1 else 0)
         + length (filter P (drop (Suc i) xs))"
  by (simp add: upd_conv_take_nth_drop)

lemma two_in_filter:
  assumes "x \<in> set xs" and "y \<in> set xs" and "x \<noteq> y" and "P x" and "P y"
  shows "2 \<le> length (filter P xs)"
proof -
  from assms have "{x, y} \<subseteq> set (filter P xs)" by simp
  then have "card {x, y} \<le> card (set (filter P xs))"
    by (intro card_mono) simp_all
  also have "\<dots> \<le> length (filter P xs)" by (rule card_length)
  finally show ?thesis using assms(3) by simp
qed

lemma thread_step_counts:
  assumes "thread_step E p s m = Some (p', s', m')"
    and "hs + (if holds_shared p then 1 else 0) = readers m"
    and "he + (if holds_exclusive p then 1 else 0) = (if writer m then 1 else (0 :: nat))"
    and "writer m \<longrightarrow> readers m = 0"
  shows "hs + (if holds_shared p' then 1 else 0) = readers m'
    \<and> he + (if holds_exclusive p' then 1 else 0) = (if writer m' then 1 else (0 :: nat))
    \<and> (writer m' \<longrightarrow> readers m' = 0) \<and> p' \<noteq> Cls_Return"
  using assms
  by (cases p)
    (auto simp add: RLock_def RUnlock_def Lock_def Unlock_def
      split: option.splits if_splits prod.splits)

lemma step_lock_inv:
  assumes inv: "lock_inv sys"
  shows "lock_inv (step E i sys)"
proof (cases "i < length (threads sys)")
  case False
  with inv show ?thesis by (simp add: step_def)
next
  case True
  show ?thesis
  proof (cases "thread_step E (threads sys ! i) (cst sys) (mtx sys)")
    case None
    with inv show ?thesis by (simp add: step_def)
  next
    case (Some r)
    obtain p' s' m' where r: "r = (p', s', m')" by (cases r)
    let ?ts = "threads sys" and ?m = "mtx sys"
    let ?hs = "length (filter holds_shared (take i ?ts))
                 + length (filter holds_shared (drop (Suc i) ?ts))"
    let ?he = "length (filter holds_exclusive (take i ?ts))
                 + length (filter holds_exclusive (drop (Suc i) ?ts))"
    from inv have a1: "?hs + (if holds_shared (?ts ! i) then 1 else 0) = readers ?m"
      and a2: "?he + (if holds_exclusive (?ts ! i) then 1 else 0) = (if writer ?m then 1 else 0)"
      and a3: "writer ?m \<longrightarrow> readers ?m = 0"
      and a4: "Cls_Return \<notin> set ?ts"
      using count_nth [OF True, of holds_shared] count_nth [OF True, of holds_exclusive]
      by (simp_all add: lock_inv_def)
    from thread_step_counts [OF Some [unfolded r] a1 a2 a3]
    have b1: "?hs + (if holds_shared p' then 1 else 0) = readers m'"
      and b2: "?he + (if holds_exclusive p' then 1 else 0) = (if writer m' then 1 else 0)"
      and b3: "writer m' \<longrightarrow> readers m' = 0" and b4: "p' \<noteq> Cls_Return"
      by simp_all
    have st: "step E i sys = \<lparr>cst = s', mtx = m', threads = ?ts[i := p']\<rparr>"
      using True Some r by (simp add: step_def)
    have "Cls_Return \<notin> set (?ts[i := p'])"
      using a4 b4 set_update_subset_insert [of ?ts i p'] by auto
    then show ?thesis
      unfolding st lock_inv_def
      using b1 b2 b3 count_update [OF True, of holds_shared p']
        count_update [OF True, of holds_exclusive p']
      by simp
  qed
qed

lemma start_facts:
  "\<not> holds_shared (start E c)" "\<not> holds_exclusive (start E c)"
  "start E c \<noteq> Cls_Return" "start E c \<noteq> Cls_Deferred"
  by (cases c; simp)+

lemma init_lock_inv: "lock_inv (init E s calls)"
proof -
  have "filter holds_shared (map (start E) calls) = []"
    "filter holds_exclusive (map (start E) calls) = []"
    by (simp_all add: filter_empty_conv start_facts)
  moreover have "Cls_Return \<notin> set (map (start E) calls)"
  proof
    assume "Cls_Return \<in> set (map (start E) calls)"
    then obtain c where "Cls_Return = start E c" by auto
    then show False using start_facts [of E c] by simp
  qed
  ultimately show ?thesis
    by (simp add: lock_inv_def init_def)
qed

lemma run_lock_inv: "lock_inv sys \<Longrightarrow> lock_inv (run E sched sys)"
  by (induction sched arbitrary: sys) (simp_all add: step_lock_inv)

text \<open>
  Once a \<open>Close\<close> stands at its deferred \<open>Lock\<close>, it holds the mutex it waits for: no
  goroutine can take a step.
\<close>

lemma deadlock_step:
  assumes inv: "lock_inv sys" and cls: "Cls_Deferred \<in> set (threads sys)"
  shows "writer (mtx sys)" and "step E i sys = sys"
proof -
  from cls have "Cls_Deferred \<in> set (filter holds_exclusive (threads sys))"
    by simp
  then have ne: "filter holds_exclusive (threads sys) \<noteq> []"
    by force
  with inv show w: "writer (mtx sys)"
    by (auto simp add: lock_inv_def split: if_splits)
  with inv have one: "length (filter holds_exclusive (threads sys)) = 1"
    and "length (filter holds_shared (threads sys)) = 0"
    by (simp_all add: lock_inv_def)
  then have none: "filter holds_shared (threads sys) = []"
    by simp
  show "step E i sys = sys"
  proof (cases "i < length (threads sys)")
    case False
    then show ?thesis by (simp add: step_def)
  next
    case True
    let ?p = "threads sys ! i"
    from True have mem: "?p \<in> set (threads sys)" by simp
    have ns: "\<not> holds_shared ?p"
      using none mem by (auto simp add: filter_empty_conv)
    have ne': "holds_exclusive ?p \<Longrightarrow> ?p = Cls_Deferred"
    proof (rule ccontr)
      assume "holds_exclusive ?p" and "?p \<noteq> Cls_Deferred"
      with two_in_filter [OF mem cls, of holds_exclusive] one show False by simp
    qed
    have "thread_step E ?p (cst sys) (mtx sys) = None"
      using w ns ne' by (cases ?p) (auto simp add: RLock_def Lock_def)
    with True show ?thesis by (simp add: step_def)
  qed
qed

lemma deadlock_run:
  assumes "lock_inv sys" and "Cls_Deferred \<in> set (threads sys)"
  shows "run E sched sys = sys"
  using assms by (induction sched) (simp_all add: deadlock_step)

lemma step_closed_inv:
  assumes inv: "lock_inv sys" and cl: "closed_inv sys"
  shows "closed_inv (step E i sys)"
proof (cases "Cls_Deferred \<in> set (threads sys)")
  case True
  with inv cl show ?thesis by (simp add: deadlock_step)
next
  case False
  show ?thesis
  proof (cases "i < length (threads sys)")
    case False
    with cl show ?thesis by (simp add: step_def)
  next
    case True
    show ?thesis
    proof (cases "thread_step E (threads sys ! i) (cst sys) (mtx sys)")
      case None
      with cl show ?thesis by (simp add: step_def)
    next
      case (Some r)
      obtain p' s' m' where r: "r = (p', s', m')" by (cases r)
      have st: "step E i sys = \<lparr>cst = s', mtx = m', threads = (threads sys)[i := p']\<rparr>"
        using True Some r by (simp add: step_def)
      have "servers (obj s') = []" if "p' = Cls_Deferred"
        using Some r that
        by (cases "threads sys ! i")
          (auto simp add: close_all_def split: option.splits prod.splits)
      moreover have "p' = Cls_Deferred" if "Cls_Deferred \<in> set ((threads sys)[i := p'])"
        using that False set_update_subset_insert [of "threads sys" i p'] by auto
      ultimately show ?thesis
        unfolding st closed_inv_def by auto
    qed
  qed
qed

lemma run_closed_inv:
  "lock_inv sys \<Longrightarrow> closed_inv sys \<Longrightarrow> closed_inv (run E sched sys)"
  by (induction sched arbitrary: sys) (simp_all add: step_lock_inv step_closed_inv)

lemma init_closed_inv: "closed_inv (init E s calls)"
proof -
  have "Cls_Deferred \<notin> set (map (start E) calls)"
  proof
    assume "Cls_Deferred \<in> set (map (start E) calls)"
    then obtain c where "Cls_Deferred = start E c" by auto
    then show False using start_facts [of E c] by simp
  qed
  then show ?thesis by (simp add: closed_inv_def init_def)
qed

text \<open>
  C10. Start any goroutines on a client whose mutex is free, each making a \<open>server\<close>
  call (as \<open>Backlog\<close>, \<open>Vector\<close> and \<open>Report\<close> do first) or a \<open>Close\<close> call, and schedule
  them in any order. No \<open>Close\<close> ever returns. When a \<open>Close\<close> has done its body and
  stands at its deferred \<open>c.m.Lock()\<close>, the map is empty, the mutex is held
  exclusively, and however the goroutines are scheduled from then on the system stays
  exactly as it is: the mutex is never released and no call of any goroutine makes
  another step.
\<close>

theorem C10_Close_never_returns:
  "Cls_Return \<notin> set (threads (run E sched (init E s calls)))
   \<and> (Cls_Deferred \<in> set (threads (run E sched (init E s calls))) \<longrightarrow>
        writer (mtx (run E sched (init E s calls)))
        \<and> servers (obj (cst (run E sched (init E s calls)))) = []
        \<and> run E sched' (run E sched (init E s calls)) = run E sched (init E s calls))"
proof -
  let ?sys = "run E sched (init E s calls)"
  have inv: "lock_inv ?sys"
    by (rule run_lock_inv [OF init_lock_inv])
  have cl: "closed_inv ?sys"
    by (rule run_closed_inv [OF init_lock_inv init_closed_inv])
  from inv have "Cls_Return \<notin> set (threads ?sys)"
    by (simp add: lock_inv_def)
  moreover have "writer (mtx ?sys)" "servers (obj (cst ?sys)) = []" "run E sched' ?sys = ?sys"
    if "Cls_Deferred \<in> set (threads ?sys)"
    using that inv cl deadlock_step(1) [of ?sys] deadlock_run [of ?sys E sched']
    by (simp_all add: closed_inv_def)
  ultimately show ?thesis by blast
qed

theorem C10_Close_never_returns_witness:
  "run cenv0 [1, 1, 1, 1, 0, 0] (init cenv0 cstate0 [CallClose, CallServer ''a'', CallServer ''b''])
     = \<lparr>cst = \<lparr>obj = NewClient, world = 3, trace = [EvNewReporter ''a'' 0 1, EvClose 1]\<rparr>,
        mtx = \<lparr>writer = True, readers = 0\<rparr>,
        threads = [Cls_Deferred, Srv_Return (Inr 1), Srv_RLock ''b'']\<rparr>
   \<and> run cenv0 [0, 2, 1, 0, 2]
        (run cenv0 [1, 1, 1, 1, 0, 0] (init cenv0 cstate0 [CallClose, CallServer ''a'', CallServer ''b'']))
     = run cenv0 [1, 1, 1, 1, 0, 0] (init cenv0 cstate0 [CallClose, CallServer ''a'', CallServer ''b''])"
proof -
  have "is_ascii ''a''" "is_ascii ''b''"
    by code_simp+
  moreover have "map lower_byte ''a'' = ''a''" "map lower_byte ''b'' = ''b''"
    by code_simp+
  ultimately have low: "ToLower cenv0 ''a'' = ''a''" "ToLower cenv0 ''b'' = ''b''"
    by (simp_all only: ToLower_ascii)
  have r: "run cenv0 [1, 1, 1, 1, 0, 0] (init cenv0 cstate0 [CallClose, CallServer ''a'', CallServer ''b''])
     = \<lparr>cst = \<lparr>obj = NewClient, world = 3, trace = [EvNewReporter ''a'' 0 1, EvClose 1]\<rparr>,
        mtx = \<lparr>writer = True, readers = 0\<rparr>,
        threads = [Cls_Deferred, Srv_Return (Inr 1), Srv_RLock ''b'']\<rparr>"
    by (simp add: init_def step_def low RLock_def RUnlock_def Lock_def Unlock_def
        server_insert_def create_def close_all_def cenv0_simps cstate0_def NewClient_def Let_def)
  then have "Cls_Deferred
      \<in> set (threads (run cenv0 [1, 1, 1, 1, 0, 0]
           (init cenv0 cstate0 [CallClose, CallServer ''a'', CallServer ''b''])))"
    by simp
  with C10_Close_never_returns [of cenv0 "[1, 1, 1, 1, 0, 0]" cstate0
      "[CallClose, CallServer ''a'', CallServer ''b'']" "[0, 2, 1, 0, 2]"]
  have "run cenv0 [0, 2, 1, 0, 2]
        (run cenv0 [1, 1, 1, 1, 0, 0] (init cenv0 cstate0 [CallClose, CallServer ''a'', CallServer ''b'']))
     = run cenv0 [1, 1, 1, 1, 0, 0] (init cenv0 cstate0 [CallClose, CallServer ''a'', CallServer ''b''])"
    by blast
  with r show ?thesis
    by blast
qed

section \<open>Properties of the poller\<close>

lemma count_ev_nth:
  "i < length xs \<Longrightarrow>
     count_ev P xs
       = count_ev P (take i xs) + (if P (xs ! i) then 1 else 0) + count_ev P (drop (Suc i) xs)"
  unfolding count_ev_def by (rule count_nth)

lemma count_ev_update:
  "i < length xs \<Longrightarrow>
     count_ev P (xs[i := y])
       = count_ev P (take i xs) + (if P y then 1 else 0) + count_ev P (drop (Suc i) xs)"
  unfolding count_ev_def by (rule count_update)

lemma waiting_wake: "count_ev waiting (map wake cs) = count_ev waiting cs"
proof (induction cs)
  case Nil
  then show ?case by simp
next
  case (Cons c cs)
  then show ?case by (cases c) simp_all
qed

lemma upd_step_pinv:
  assumes inv: "pinv s" and lt: "i < length (updates s)"
  shows "pinv (upd_step i s)"
proof -
  note n = count_ev_nth [OF lt, of in_update] count_ev_nth [OF lt, of in_poll]
  note u = count_ev_update [OF lt, of in_update] count_ev_update [OF lt, of in_poll]
  show ?thesis
  proof (cases "updates s ! i")
    case U_Start
    with inv n show ?thesis
      by (auto simp add: pinv_def upd_step_def startUpdate_def u split: if_splits)
  next
    case U_Polling
    with inv n show ?thesis
      by (auto simp add: pinv_def upd_step_def u split: if_splits)
  next
    case U_Finish
    with inv n show ?thesis
      by (auto simp add: pinv_def upd_step_def finishUpdate_def u split: if_splits)
  next
    case U_Broadcast
    with inv n show ?thesis
      by (auto simp add: pinv_def upd_step_def u waiting_wake split: if_splits)
  next
    case U_Done
    with inv show ?thesis
      by (simp add: upd_step_def)
  qed
qed

lemma wait_or_close_pinv:
  assumes lt: "j < length (closes s)"
    and a: "count_ev in_update (updates s) = (if updating (poller s) then 1 else 0)"
    and b: "count_ev is_source_close (source_calls s)
              + count_ev waiting (take j (closes s))
              + count_ev waiting (drop (Suc j) (closes s)) + 1
            = (if closed (poller s) then 1 else 0)"
    and c: "0 < count_ev is_source_close (source_calls s) \<longrightarrow> \<not> updating (poller s)"
    and d: "count_ev is_poll_begin (source_calls s)
              = count_ev is_poll_end (source_calls s) + count_ev in_poll (updates s)"
  shows "pinv (wait_or_close j s)"
  using a b c d
  by (auto simp add: pinv_def wait_or_close_def count_ev_update [OF lt] split: if_splits)

lemma cls_step_pinv:
  assumes inv: "pinv s" and lt: "j < length (closes s)"
  shows "pinv (cls_step j s)"
proof -
  note n = count_ev_nth [OF lt, of waiting]
  note u = count_ev_update [OF lt, of waiting]
  show ?thesis
  proof (cases "closes s ! j")
    case C_Start
    show ?thesis
    proof (cases "closed (poller s)")
      case True
      with inv n C_Start show ?thesis
        by (auto simp add: pinv_def cls_step_def u split: if_splits)
    next
      case False
      let ?s = "s\<lparr>poller := (poller s)\<lparr>closed := True, stop_closed := True, pulse_closed := True\<rparr>\<rparr>"
      have "pinv (wait_or_close j ?s)"
        using inv n C_Start False lt
        by (intro wait_or_close_pinv) (auto simp add: pinv_def split: if_splits)
      with C_Start False show ?thesis
        by (simp add: cls_step_def)
    qed
  next
    case C_Waiting
    with inv show ?thesis by (simp add: cls_step_def)
  next
    case C_Woken
    have "pinv (wait_or_close j s)"
      using inv n C_Woken lt
      by (intro wait_or_close_pinv) (auto simp add: pinv_def split: if_splits)
    with C_Woken show ?thesis
      by (simp add: cls_step_def)
  next
    case C_Done
    with inv show ?thesis by (simp add: cls_step_def)
  qed
qed

lemma pstep_pinv: "pinv s \<Longrightarrow> pinv (pstep e s)"
proof (cases e)
  case (Upd i)
  assume "pinv s"
  with Upd show ?thesis by (simp add: upd_step_pinv)
next
  case (Cls j)
  assume "pinv s"
  with Cls show ?thesis by (simp add: cls_step_pinv)
qed (auto simp add: pinv_def)

lemma New_pinv: "pinv (New ival)"
  by (simp add: pinv_def New_def)

lemma prun_pinv: "pinv s \<Longrightarrow> pinv (prun es s)"
  by (induction es arbitrary: s) (simp_all add: pstep_pinv)

lemma count_ev_mono: "(\<And>x. P x \<Longrightarrow> Q x) \<Longrightarrow> count_ev P xs \<le> count_ev Q xs"
  by (induction xs) auto

lemma count_ev_pos: "x \<in> set xs \<Longrightarrow> P x \<Longrightarrow> 0 < count_ev P xs"
  by (induction xs) auto

lemma in_poll_in_update: "in_poll u \<Longrightarrow> in_update u"
  by (cases u) simp_all

text \<open>
  C4. In every state a poller can reach from \<open>New\<close>, whatever the order of ticks,
  \<open>Poll\<close> calls, \<open>Close\<close> calls and goroutine steps: at most one update goroutine is
  inside the source's \<open>Poll\<close>, and the source has seen at most one \<open>Poll\<close> begin that has
  not ended. A trigger whose update goroutine reaches \<open>startUpdate\<close> while an update is
  running is dropped: the goroutine returns without calling the source, and nothing
  else in the poller changes, so nothing is kept for a later run; a goroutine that has
  returned does nothing more.
\<close>

theorem C4_single_update_in_flight:
  assumes "s = prun es (New ival)"
  shows "count_ev in_poll (updates s) \<le> 1
    \<and> count_ev is_poll_begin (source_calls s) \<le> count_ev is_poll_end (source_calls s) + 1
    \<and> (i < length (updates s) \<and> updates s ! i = U_Start \<and> updating (poller s) \<longrightarrow>
          pstep (Upd i) s = s\<lparr>updates := (updates s)[i := U_Done]\<rparr>)
    \<and> (i < length (updates s) \<and> updates s ! i = U_Done \<longrightarrow> pstep (Upd i) s = s)"
proof -
  have inv: "pinv s"
    unfolding assms by (rule prun_pinv [OF New_pinv])
  have "count_ev in_poll (updates s) \<le> count_ev in_update (updates s)"
    by (rule count_ev_mono) (rule in_poll_in_update)
  with inv have one: "count_ev in_poll (updates s) \<le> 1"
    by (simp add: pinv_def split: if_splits)
  moreover from inv one
  have "count_ev is_poll_begin (source_calls s) \<le> count_ev is_poll_end (source_calls s) + 1"
    by (simp add: pinv_def)
  moreover have "pstep (Upd i) s = s\<lparr>updates := (updates s)[i := U_Done]\<rparr>"
    if "i < length (updates s)" "updates s ! i = U_Start" "updating (poller s)"
    using that by (simp add: upd_step_def startUpdate_def)
  moreover have "pstep (Upd i) s = s" if "i < length (updates s)" "updates s ! i = U_Done"
    using that by (simp add: upd_step_def)
  ultimately show ?thesis by blast
qed

theorem C4_single_update_in_flight_witness:
  "prun [Tick, Upd 0, Tick] (New 5)
     = \<lparr>poller = \<lparr>interval = 5, updating = True, pulse_closed = False, stop_closed = False,
                   closed = False\<rparr>,
        running = True, updates = [U_Polling, U_Start], closes = [],
        source_calls = [PollBegin 0]\<rparr>
   \<and> pstep (Upd 1) (prun [Tick, Upd 0, Tick] (New 5))
     = \<lparr>poller = \<lparr>interval = 5, updating = True, pulse_closed = False, stop_closed = False,
                   closed = False\<rparr>,
        running = True, updates = [U_Polling, U_Done], closes = [],
        source_calls = [PollBegin 0]\<rparr>
   \<and> count_ev in_poll (updates (prun [Tick, Upd 0, Tick] (New 5))) \<le> 1"
proof -
  let ?s = "prun [Tick, Upd 0, Tick] (New 5)"
  have r: "?s = \<lparr>poller = \<lparr>interval = 5, updating = True, pulse_closed = False,
                             stop_closed = False, closed = False\<rparr>,
                 running = True, updates = [U_Polling, U_Start], closes = [],
                 source_calls = [PollBegin 0]\<rparr>"
    by (simp add: New_def upd_step_def startUpdate_def)
  note th = C4_single_update_in_flight [OF refl, of "[Tick, Upd 0, Tick]" 5 1]
  from r have h: "1 < length (updates ?s) \<and> updates ?s ! 1 = U_Start \<and> updating (poller ?s)"
    by simp
  with th have "pstep (Upd 1) ?s = ?s\<lparr>updates := (updates ?s)[1 := U_Done]\<rparr>"
    by blast
  also have "\<dots> = \<lparr>poller = \<lparr>interval = 5, updating = True, pulse_closed = False,
                             stop_closed = False, closed = False\<rparr>,
                 running = True, updates = [U_Polling, U_Done], closes = [],
                 source_calls = [PollBegin 0]\<rparr>"
    unfolding r by simp
  finally have d: "pstep (Upd 1) ?s = \<lparr>poller = \<lparr>interval = 5, updating = True,
                       pulse_closed = False, stop_closed = False, closed = False\<rparr>,
                 running = True, updates = [U_Polling, U_Done], closes = [],
                 source_calls = [PollBegin 0]\<rparr>" .
  from th have "count_ev in_poll (updates ?s) \<le> 1"
    by blast
  with r d show ?thesis
    by blast
qed

text \<open>
  C5. In every state a poller can reach from \<open>New\<close>: the source has been closed at most
  once; when it has been closed, no update goroutine is between \<open>startUpdate\<close> and
  \<open>finishUpdate\<close> and every \<open>Poll\<close> of the source that began has ended. A first \<open>Close\<close>
  that finds an update running marks the poller closed, closes both channels and waits
  without closing the source, and stays blocked until a broadcast wakes it. When the
  poll in flight returns and its goroutine runs \<open>finishUpdate\<close>, the waiting \<open>Close\<close>
  is woken, closes the source, for the first time, and returns. A \<open>Close\<close> on a poller
  that is already closed returns at once and changes nothing else.
\<close>

theorem C5_Close_waits_and_closes_once:
  assumes "s = prun es (New ival)"
  shows "count_ev is_source_close (source_calls s) \<le> 1
    \<and> (0 < count_ev is_source_close (source_calls s) \<longrightarrow>
          count_ev in_update (updates s) = 0
          \<and> count_ev is_poll_begin (source_calls s) = count_ev is_poll_end (source_calls s))
    \<and> (j < length (closes s) \<and> closes s ! j = C_Start \<and> \<not> closed (poller s)
         \<and> updating (poller s) \<longrightarrow>
          pstep (Cls j) s
            = s\<lparr>poller := (poller s)\<lparr>closed := True, stop_closed := True, pulse_closed := True\<rparr>,
                closes := (closes s)[j := C_Waiting]\<rparr>)
    \<and> (j < length (closes s) \<and> closes s ! j = C_Waiting \<longrightarrow> pstep (Cls j) s = s)
    \<and> (i < length (updates s) \<and> j < length (closes s) \<and> updates s ! i = U_Polling
         \<and> closes s ! j = C_Waiting \<longrightarrow>
          count_ev is_source_close (source_calls s) = 0
          \<and> closes (prun [Upd i, Upd i, Upd i, Cls j] s) ! j = C_Done
          \<and> source_calls (prun [Upd i, Upd i, Upd i, Cls j] s)
              = source_calls s @ [PollEnd i, SourceClose j])
    \<and> (j < length (closes s) \<and> closes s ! j = C_Start \<and> closed (poller s) \<longrightarrow>
          pstep (Cls j) s = s\<lparr>closes := (closes s)[j := C_Done]\<rparr>)"
proof -
  have inv: "pinv s"
    unfolding assms by (rule prun_pinv [OF New_pinv])
  from inv have a: "count_ev is_source_close (source_calls s) \<le> 1"
    by (simp add: pinv_def split: if_splits)
  have b: "count_ev in_update (updates s) = 0
      \<and> count_ev is_poll_begin (source_calls s) = count_ev is_poll_end (source_calls s)"
    if "0 < count_ev is_source_close (source_calls s)"
  proof -
    from inv that have "count_ev in_update (updates s) = 0"
      by (simp add: pinv_def)
    moreover have "count_ev in_poll (updates s) \<le> count_ev in_update (updates s)"
      by (rule count_ev_mono) (rule in_poll_in_update)
    ultimately show ?thesis
      using inv by (simp add: pinv_def)
  qed
  have c: "pstep (Cls j) s
      = s\<lparr>poller := (poller s)\<lparr>closed := True, stop_closed := True, pulse_closed := True\<rparr>,
          closes := (closes s)[j := C_Waiting]\<rparr>"
    if "j < length (closes s)" "closes s ! j = C_Start" "\<not> closed (poller s)" "updating (poller s)"
    using that by (simp add: cls_step_def wait_or_close_def)
  have c': "pstep (Cls j) s = s" if "j < length (closes s)" "closes s ! j = C_Waiting"
    using that by (simp add: cls_step_def)
  have d: "count_ev is_source_close (source_calls s) = 0
      \<and> closes (prun [Upd i, Upd i, Upd i, Cls j] s) ! j = C_Done
      \<and> source_calls (prun [Upd i, Upd i, Upd i, Cls j] s)
          = source_calls s @ [PollEnd i, SourceClose j]"
    if lt: "i < length (updates s)" "j < length (closes s)"
      and at: "updates s ! i = U_Polling" "closes s ! j = C_Waiting"
  proof -
    from lt(2) at(2) have "0 < count_ev waiting (closes s)"
      by (intro count_ev_pos [of "C_Waiting"]) (auto simp add: in_set_conv_nth)
    with inv have none: "count_ev is_source_close (source_calls s) = 0"
      by (simp add: pinv_def split: if_splits)
    let ?s1 = "s\<lparr>updates := (updates s)[i := U_Finish],
                 source_calls := source_calls s @ [PollEnd i]\<rparr>"
    let ?s2 = "?s1\<lparr>poller := finishUpdate (poller s), updates := (updates s)[i := U_Broadcast]\<rparr>"
    let ?s3 = "?s2\<lparr>updates := (updates s)[i := U_Done], closes := map wake (closes s)\<rparr>"
    have s1: "pstep (Upd i) s = ?s1"
      using lt at by (simp add: upd_step_def)
    have s2: "pstep (Upd i) ?s1 = ?s2"
      using lt by (simp add: upd_step_def)
    have s3: "pstep (Upd i) ?s2 = ?s3"
      using lt by (simp add: upd_step_def)
    have s4: "pstep (Cls j) ?s3
        = ?s3\<lparr>closes := (map wake (closes s))[j := C_Done],
              source_calls := source_calls s @ [PollEnd i, SourceClose j]\<rparr>"
      using lt at by (simp add: cls_step_def wait_or_close_def finishUpdate_def)
    have "prun [Upd i, Upd i, Upd i, Cls j] s
        = ?s3\<lparr>closes := (map wake (closes s))[j := C_Done],
              source_calls := source_calls s @ [PollEnd i, SourceClose j]\<rparr>"
      by (simp only: prun.simps s1 s2 s3 s4)
    with none lt show ?thesis
      by simp
  qed
  have e: "pstep (Cls j) s = s\<lparr>closes := (closes s)[j := C_Done]\<rparr>"
    if "j < length (closes s)" "closes s ! j = C_Start" "closed (poller s)"
    using that by (simp add: cls_step_def)
  from a b c c' d e show ?thesis
    by blast
qed

theorem C5_Close_waits_and_closes_once_witness:
  "prun [Tick, Upd 0, CloseCall] (New 5)
     = \<lparr>poller = \<lparr>interval = 5, updating = True, pulse_closed = False, stop_closed = False,
                   closed = False\<rparr>,
        running = True, updates = [U_Polling], closes = [C_Start],
        source_calls = [PollBegin 0]\<rparr>
   \<and> prun [Tick, Upd 0, CloseCall, Cls 0] (New 5)
     = \<lparr>poller = \<lparr>interval = 5, updating = True, pulse_closed = True, stop_closed = True,
                   closed = True\<rparr>,
        running = True, updates = [U_Polling], closes = [C_Waiting],
        source_calls = [PollBegin 0]\<rparr>
   \<and> pstep (Cls 0) (prun [Tick, Upd 0, CloseCall, Cls 0] (New 5))
     = prun [Tick, Upd 0, CloseCall, Cls 0] (New 5)
   \<and> closes (prun [Upd 0, Upd 0, Upd 0, Cls 0] (prun [Tick, Upd 0, CloseCall, Cls 0] (New 5))) ! 0
     = C_Done
   \<and> source_calls
        (prun [Upd 0, Upd 0, Upd 0, Cls 0] (prun [Tick, Upd 0, CloseCall, Cls 0] (New 5)))
     = [PollBegin 0, PollEnd 0, SourceClose 0]
   \<and> prun [Tick, Upd 0, CloseCall, Cls 0, Upd 0, Upd 0, Upd 0, Cls 0, CloseCall] (New 5)
     = \<lparr>poller = \<lparr>interval = 5, updating = False, pulse_closed = True, stop_closed = True,
                   closed = True\<rparr>,
        running = True, updates = [U_Done], closes = [C_Done, C_Start],
        source_calls = [PollBegin 0, PollEnd 0, SourceClose 0]\<rparr>
   \<and> pstep (Cls 1)
        (prun [Tick, Upd 0, CloseCall, Cls 0, Upd 0, Upd 0, Upd 0, Cls 0, CloseCall] (New 5))
     = \<lparr>poller = \<lparr>interval = 5, updating = False, pulse_closed = True, stop_closed = True,
                   closed = True\<rparr>,
        running = True, updates = [U_Done], closes = [C_Done, C_Done],
        source_calls = [PollBegin 0, PollEnd 0, SourceClose 0]\<rparr>"
proof -
  let ?s0 = "prun [Tick, Upd 0, CloseCall] (New 5)"
  let ?s1 = "prun [Tick, Upd 0, CloseCall, Cls 0] (New 5)"
  let ?s2 = "prun [Tick, Upd 0, CloseCall, Cls 0, Upd 0, Upd 0, Upd 0, Cls 0, CloseCall] (New 5)"
  have r0: "?s0 = \<lparr>poller = \<lparr>interval = 5, updating = True, pulse_closed = False,
                              stop_closed = False, closed = False\<rparr>,
                  running = True, updates = [U_Polling], closes = [C_Start],
                  source_calls = [PollBegin 0]\<rparr>"
    by (simp add: New_def upd_step_def startUpdate_def)
  have s01: "?s1 = pstep (Cls 0) ?s0"
    by simp
  from r0 have h0: "0 < length (closes ?s0) \<and> closes ?s0 ! 0 = C_Start \<and> \<not> closed (poller ?s0)
      \<and> updating (poller ?s0)"
    by simp
  with C5_Close_waits_and_closes_once [OF refl, of "[Tick, Upd 0, CloseCall]" 5 0]
  have "pstep (Cls 0) ?s0
      = ?s0\<lparr>poller := (poller ?s0)\<lparr>closed := True, stop_closed := True, pulse_closed := True\<rparr>,
            closes := (closes ?s0)[0 := C_Waiting]\<rparr>"
    by blast
  then have r1: "?s1 = \<lparr>poller = \<lparr>interval = 5, updating = True, pulse_closed = True,
                              stop_closed = True, closed = True\<rparr>,
                  running = True, updates = [U_Polling], closes = [C_Waiting],
                  source_calls = [PollBegin 0]\<rparr>"
    unfolding s01 r0 by simp
  then have h1: "0 < length (updates ?s1) \<and> 0 < length (closes ?s1) \<and> updates ?s1 ! 0 = U_Polling
      \<and> closes ?s1 ! 0 = C_Waiting"
    by simp
  note th1 = C5_Close_waits_and_closes_once [OF refl, of "[Tick, Upd 0, CloseCall, Cls 0]" 5 0 0]
  from th1 h1 have blocked: "pstep (Cls 0) ?s1 = ?s1"
    by blast
  from th1 h1 have fin: "closes (prun [Upd 0, Upd 0, Upd 0, Cls 0] ?s1) ! 0 = C_Done"
    and "source_calls (prun [Upd 0, Upd 0, Upd 0, Cls 0] ?s1)
           = source_calls ?s1 @ [PollEnd 0, SourceClose 0]"
    by blast+
  then have tr: "source_calls (prun [Upd 0, Upd 0, Upd 0, Cls 0] ?s1)
      = [PollBegin 0, PollEnd 0, SourceClose 0]"
    unfolding r1 by simp
  have r2: "?s2 = \<lparr>poller = \<lparr>interval = 5, updating = False, pulse_closed = True,
                              stop_closed = True, closed = True\<rparr>,
                  running = True, updates = [U_Done], closes = [C_Done, C_Start],
                  source_calls = [PollBegin 0, PollEnd 0, SourceClose 0]\<rparr>"
    by (simp add: New_def upd_step_def startUpdate_def finishUpdate_def cls_step_def
        wait_or_close_def)
  then have h2: "1 < length (closes ?s2) \<and> closes ?s2 ! 1 = C_Start \<and> closed (poller ?s2)"
    by simp
  with C5_Close_waits_and_closes_once [OF refl,
      of "[Tick, Upd 0, CloseCall, Cls 0, Upd 0, Upd 0, Upd 0, Cls 0, CloseCall]" 5 1]
  have "pstep (Cls 1) ?s2 = ?s2\<lparr>closes := (closes ?s2)[1 := C_Done]\<rparr>"
    by blast
  then have r3: "pstep (Cls 1) ?s2
      = \<lparr>poller = \<lparr>interval = 5, updating = False, pulse_closed = True, stop_closed = True,
                    closed = True\<rparr>,
         running = True, updates = [U_Done], closes = [C_Done, C_Done],
         source_calls = [PollBegin 0, PollEnd 0, SourceClose 0]\<rparr>"
    unfolding r2 by simp
  from r0 r1 blocked fin tr r2 r3 show ?thesis
    by blast
qed

end
